theory Spec2Isabelle
  imports Main "HOL-Library.Sublist"
begin

section \<open>The op-selection parser\<close>

text \<open>
  A shallow embedding of \<^verbatim>\<open>OpSelectionParser.ts\<close>, the recursive-descent parser that
  ANTLR generated from the grammar \<^verbatim>\<open>OpSelection.g4\<close>:
  \<^verbatim>\<open>
  start                : expr EOF
  expr                 : traversalAllowedExpr                        (alternative 1)
                       | traversal traversalAllowedExpr traversal    (alternative 2)
                       | traversal traversalAllowedExpr              (alternative 3)
                       | traversalAllowedExpr traversal              (alternative 4)
                       | NOT expr                                    (alternative 5)
                       | STAR                                        (alternative 6)
                       | expr AND expr | expr OR expr                (the loop)
  traversalAllowedExpr : attributeExpr | LPAREN expr RPAREN
  traversal            : STAR | PLUS+
  attributeExpr        : NAME COLON value | NAME_SUBSTRING COLON value
  value                : QUOTED_STRING | UNQUOTED_STRING
  \<close>
  Each rule method of the class is one function here. The parser's mutable state is
  the position in the token stream, so every function takes the tokens that are
  still unread and returns the context object it built together with the tokens
  left over. A \<^verbatim>\<open>RecognitionException\<close> is the \<open>Inl\<close> branch of the result.
\<close>

subsection \<open>Tokens and the token stream\<close>

text \<open>The token types, in the order of the constants \<^verbatim>\<open>AND = 1\<close> ... \<^verbatim>\<open>WS = 13\<close>.\<close>

datatype TokenType =
  AND | OR | NOT | STAR | PLUS | COLON | LPAREN | RPAREN
  | NAME | NAME_SUBSTRING | QUOTED_STRING | UNQUOTED_STRING | WS

record Token =
  kind :: TokenType
  tokenText :: string
  position :: nat

text \<open>
  The stream is the list of the tokens the lexer produced; the end of the list is the
  \<^verbatim>\<open>EOF\<close> token, so \<^verbatim>\<open>_input.LA(1)\<close> is \<open>None\<close> there and stays \<open>None\<close>.
\<close>

definition LA1 :: "Token list \<Rightarrow> TokenType option" where
  "LA1 ts = (case ts of [] \<Rightarrow> None | t # _ \<Rightarrow> Some (kind t))"

definition LT1 :: "Token list \<Rightarrow> Token option" where
  "LT1 ts = (case ts of [] \<Rightarrow> None | t # _ \<Rightarrow> Some t)"

subsection \<open>Syntax errors\<close>

text \<open>
  Every rule method catches a \<^verbatim>\<open>RecognitionException\<close> and hands it to
  \<^verbatim>\<open>_errHandler.reportError\<close>. The model stops at the first error that is reported
  and returns it: the value records the offending token (\<open>None\<close> is \<^verbatim>\<open>EOF\<close>), whose
  position is the position of the syntax error. \<^verbatim>\<open>NoViableAltException\<close>,
  \<^verbatim>\<open>InputMismatchException\<close> and \<^verbatim>\<open>FailedPredicateException\<close> are all of this class.
  A parse that reports no error returns its tree under \<open>Inr\<close>.

  The rule functions stop there: \<open>Inl\<close> is the first syntax error handed to the error
  listeners, which is all that a caller sees whose listener raises when it is told
  of an error. After \<^verbatim>\<open>reportError\<close> the rule methods call \<^verbatim>\<open>_errHandler.recover\<close> and
  return the context built so far; for \<^verbatim>\<open>start\<close> itself that path is followed by
  \<open>start_localctx\<close> below, for the rules that \<^verbatim>\<open>start\<close> calls it is not.
  \<^verbatim>\<open>_errHandler.sync\<close> reports an error only at a token at which the switch or the
  prediction that follows it fails as well, so the model lets that step fail, at the
  same token.
\<close>

datatype RecognitionException = RecognitionException (offendingToken: "Token option")

text \<open>
  \<^verbatim>\<open>match(ttype)\<close> consumes the current token when it has the expected type and
  reports a syntax error at the current token otherwise.
\<close>

definition match ::
  "TokenType \<Rightarrow> Token list \<Rightarrow> RecognitionException + (Token \<times> Token list)" where
  "match ttype ts =
     (case ts of
        [] \<Rightarrow> Inl (RecognitionException None)
      | t # r \<Rightarrow> if kind t = ttype then Inr (t, r) else Inl (RecognitionException (Some t)))"

definition matchEOF :: "Token list \<Rightarrow> RecognitionException + unit" where
  "matchEOF ts = (case ts of [] \<Rightarrow> Inr () | t # _ \<Rightarrow> Inl (RecognitionException (Some t)))"

subsection \<open>Parse tree contexts\<close>

text \<open>
  One constructor per context class; the arguments are the children in the order the
  rule adds them, terminal nodes included.
\<close>

datatype ValueContext = ValueContext Token

datatype AttributeExprContext =
  NameExprContext Token Token ValueContext
  | NameSubstringExprContext Token Token ValueContext

datatype TraversalContext = TraversalContext (children: "Token list")

datatype ExprContext =
  TraversalAllowedExpressionContext TraversalAllowedExprContext
  | UpAndDownTraversalExpressionContext TraversalContext TraversalAllowedExprContext TraversalContext
  | UpTraversalExpressionContext TraversalContext TraversalAllowedExprContext
  | DownTraversalExpressionContext TraversalAllowedExprContext TraversalContext
  | NotExpressionContext Token ExprContext
  | AndExpressionContext ExprContext Token ExprContext
  | OrExpressionContext ExprContext Token ExprContext
  | AllExpressionContext Token
and TraversalAllowedExprContext =
  AttributeExpressionContext AttributeExprContext
  | ParenthesizedExpressionContext Token ExprContext Token

datatype StartContext = StartContext ExprContext

text \<open>
  The accessors of \<^verbatim>\<open>TraversalContext\<close>: \<^verbatim>\<open>STAR()\<close> is \<^verbatim>\<open>tryGetToken(STAR, 0)\<close> and
  \<^verbatim>\<open>PLUS()\<close> is \<^verbatim>\<open>getTokens(PLUS)\<close>.
\<close>

definition TraversalContext_STAR :: "TraversalContext \<Rightarrow> Token option" where
  "TraversalContext_STAR ctx = find (\<lambda>t. kind t = STAR) (children ctx)"

definition TraversalContext_PLUS :: "TraversalContext \<Rightarrow> Token list" where
  "TraversalContext_PLUS ctx = filter (\<lambda>t. kind t = PLUS) (children ctx)"

text \<open>The tokens a tree spans, left to right.\<close>

fun tokens_of_attributeExpr :: "AttributeExprContext \<Rightarrow> Token list" where
  "tokens_of_attributeExpr (NameExprContext n c (ValueContext v)) = [n, c, v]"
| "tokens_of_attributeExpr (NameSubstringExprContext n c (ValueContext v)) = [n, c, v]"

fun tokens_of_expr :: "ExprContext \<Rightarrow> Token list"
  and tokens_of_traversalAllowedExpr :: "TraversalAllowedExprContext \<Rightarrow> Token list" where
  "tokens_of_expr (TraversalAllowedExpressionContext x) = tokens_of_traversalAllowedExpr x"
| "tokens_of_expr (UpAndDownTraversalExpressionContext u x d) =
     children u @ tokens_of_traversalAllowedExpr x @ children d"
| "tokens_of_expr (UpTraversalExpressionContext u x) =
     children u @ tokens_of_traversalAllowedExpr x"
| "tokens_of_expr (DownTraversalExpressionContext x d) =
     tokens_of_traversalAllowedExpr x @ children d"
| "tokens_of_expr (NotExpressionContext n x) = n # tokens_of_expr x"
| "tokens_of_expr (AndExpressionContext l a r) = tokens_of_expr l @ a # tokens_of_expr r"
| "tokens_of_expr (OrExpressionContext l a r) = tokens_of_expr l @ a # tokens_of_expr r"
| "tokens_of_expr (AllExpressionContext s) = [s]"
| "tokens_of_traversalAllowedExpr (AttributeExpressionContext a) = tokens_of_attributeExpr a"
| "tokens_of_traversalAllowedExpr (ParenthesizedExpressionContext l x r) =
     l # tokens_of_expr x @ [r]"

subsection \<open>The rules without recursion: value, attributeExpr, traversal\<close>

text \<open>
  \<^verbatim>\<open>value()\<close>: the current token must be a \<^verbatim>\<open>QUOTED_STRING\<close> or an
  \<^verbatim>\<open>UNQUOTED_STRING\<close>; anything else goes to \<^verbatim>\<open>recoverInline\<close>, which reports the
  error at the current token.
\<close>

definition value_rule ::
  "Token list \<Rightarrow> RecognitionException + (ValueContext \<times> Token list)" where
  "value_rule ts =
     (case ts of
        [] \<Rightarrow> Inl (RecognitionException None)
      | t # r \<Rightarrow>
          if \<not> (kind t = QUOTED_STRING \<or> kind t = UNQUOTED_STRING)
          then Inl (RecognitionException (Some t))
          else Inr (ValueContext t, r))"

text \<open>\<^verbatim>\<open>attributeExpr()\<close>: a switch on \<^verbatim>\<open>LA(1)\<close> with a throwing default.\<close>

definition attributeExpr ::
  "Token list \<Rightarrow> RecognitionException + (AttributeExprContext \<times> Token list)" where
  "attributeExpr ts =
     (case LA1 ts of
        Some NAME \<Rightarrow>
          (case match NAME ts of Inl e \<Rightarrow> Inl e | Inr (n, r1) \<Rightarrow>
          (case match COLON r1 of Inl e \<Rightarrow> Inl e | Inr (c, r2) \<Rightarrow>
          (case value_rule r2 of Inl e \<Rightarrow> Inl e | Inr (v, r3) \<Rightarrow>
             Inr (NameExprContext n c v, r3))))
      | Some NAME_SUBSTRING \<Rightarrow>
          (case match NAME_SUBSTRING ts of Inl e \<Rightarrow> Inl e | Inr (n, r1) \<Rightarrow>
          (case match COLON r1 of Inl e \<Rightarrow> Inl e | Inr (c, r2) \<Rightarrow>
          (case value_rule r2 of Inl e \<Rightarrow> Inl e | Inr (v, r3) \<Rightarrow>
             Inr (NameSubstringExprContext n c v, r3))))
      | _ \<Rightarrow> Inl (RecognitionException (LT1 ts)))"

text \<open>
  Decision 4 is the exit test of the \<^verbatim>\<open>PLUS+\<close> loop (ATN state 54): alternative 1
  takes another \<^verbatim>\<open>PLUS\<close>, alternative 2 leaves the loop. No token that may follow a
  traversal is a \<^verbatim>\<open>PLUS\<close>, so the prediction is decided by the next token alone.
\<close>

definition adaptivePredict_4 :: "Token list \<Rightarrow> nat" where
  "adaptivePredict_4 ts = (if LA1 ts = Some PLUS then 1 else 2)"

lemma match_length: "match k ts = Inr (t, r) \<Longrightarrow> length r < length ts"
  by (auto simp: match_def split: list.splits if_splits)

text \<open>
  The \<^verbatim>\<open>do ... while\<close> loop of \<^verbatim>\<open>traversal()\<close>: match one \<^verbatim>\<open>PLUS\<close>, then ask decision 4
  whether to go round again. \<open>acc\<close> holds the children added so far.
\<close>

function traversal_loop ::
  "Token list \<Rightarrow> Token list \<Rightarrow> RecognitionException + (Token list \<times> Token list)" where
  "traversal_loop acc ts =
     (case match PLUS ts of Inl e \<Rightarrow> Inl e | Inr (t, r) \<Rightarrow>
        if adaptivePredict_4 r \<noteq> 2 then traversal_loop (acc @ [t]) r
        else Inr (acc @ [t], r))"
  by pat_completeness auto
termination
  by (relation "measure (\<lambda>(acc, ts). length ts)") (auto dest: match_length)

declare traversal_loop.simps [simp del]

definition traversal ::
  "Token list \<Rightarrow> RecognitionException + (TraversalContext \<times> Token list)" where
  "traversal ts =
     (case LA1 ts of
        Some STAR \<Rightarrow>
          (case match STAR ts of Inl e \<Rightarrow> Inl e | Inr (t, r) \<Rightarrow>
             Inr (TraversalContext [t], r))
      | Some PLUS \<Rightarrow>
          (case traversal_loop [] ts of Inl e \<Rightarrow> Inl e | Inr (cs, r) \<Rightarrow>
             Inr (TraversalContext cs, r))
      | _ \<Rightarrow> Inl (RecognitionException (LT1 ts)))"

subsection \<open>Lengths of the remaining input\<close>

lemma value_rule_length: "value_rule ts = Inr (v, r) \<Longrightarrow> length r < length ts"
  by (auto simp: value_rule_def split: list.splits if_splits)

lemma attributeExpr_length: "attributeExpr ts = Inr (a, r) \<Longrightarrow> length r < length ts"
  unfolding attributeExpr_def
  by (auto split: option.splits TokenType.splits sum.splits
      dest!: match_length value_rule_length)

lemma traversal_loop_length:
  "traversal_loop acc ts = Inr (cs, r) \<Longrightarrow> length r < length ts"
proof (induction acc ts arbitrary: cs r rule: traversal_loop.induct)
  case (1 acc ts)
  show ?case
  proof (cases "match PLUS ts")
    case (Inl e)
    with "1.prems" show ?thesis by (simp add: traversal_loop.simps [of acc ts])
  next
    case (Inr b)
    obtain t r1 where b: "b = (t, r1)" by (cases b)
    have l1: "length r1 < length ts" using Inr b by (auto dest: match_length)
    show ?thesis
    proof (cases "adaptivePredict_4 r1 \<noteq> 2")
      case True
      with "1.prems" Inr b have "traversal_loop (acc @ [t]) r1 = Inr (cs, r)"
        by (simp add: traversal_loop.simps [of acc ts])
      with "1.IH" [OF Inr b [symmetric] True] have "length r < length r1" by simp
      with l1 show ?thesis by simp
    next
      case False
      with "1.prems" Inr b have "r = r1"
        by (simp add: traversal_loop.simps [of acc ts])
      with l1 show ?thesis by simp
    qed
  qed
qed

lemma traversal_length: "traversal ts = Inr (c, r) \<Longrightarrow> length r < length ts"
  unfolding traversal_def
  by (auto split: option.splits TokenType.splits sum.splits
      dest!: match_length traversal_loop_length)

lemma match_shorter:
  "(case match k ts of Inl e \<Rightarrow> True | Inr (t, r) \<Rightarrow> length r < length ts)"
  by (auto simp: match_def split: list.splits)

lemma traversal_shorter:
  "(case traversal ts of Inl e \<Rightarrow> True | Inr (c, r) \<Rightarrow> length r < length ts)"
  by (auto split: sum.splits dest: traversal_length)

lemma attributeExpr_shorter:
  "(case attributeExpr ts of Inl e \<Rightarrow> True | Inr (c, r) \<Rightarrow> length r < length ts)"
  by (auto split: sum.splits dest: attributeExpr_length)

subsection \<open>The recursive rules: expr and traversalAllowedExpr\<close>

text \<open>
  \<^verbatim>\<open>precpred(_ctx, precedence)\<close> compares with the precedence \<^verbatim>\<open>_p\<close> that the running
  invocation of \<^verbatim>\<open>expr\<close> pushed in \<^verbatim>\<open>enterRecursionRule\<close>.
\<close>

definition precpred :: "nat \<Rightarrow> nat \<Rightarrow> bool" where
  "precpred p precedence = (precedence \<ge> p)"

text \<open>
  Decision 2 is the entry of the operator loop (ATN state 40): alternative 1 goes
  round the loop, alternative 2 leaves it. The loop body starts with the precedence
  predicate 3 followed by \<^verbatim>\<open>AND\<close>, or the precedence predicate 2 followed by \<^verbatim>\<open>OR\<close>;
  the prediction evaluates the predicate with the running precedence and prefers the
  loop. Decision 1 (ATN state 38) picks between the two bodies.
\<close>

definition adaptivePredict_2 :: "nat \<Rightarrow> Token list \<Rightarrow> nat" where
  "adaptivePredict_2 p ts =
     (if (LA1 ts = Some AND \<and> precpred p 3) \<or> (LA1 ts = Some OR \<and> precpred p 2)
      then 1 else 2)"

definition adaptivePredict_1 :: "nat \<Rightarrow> Token list \<Rightarrow> nat" where
  "adaptivePredict_1 p ts = (if LA1 ts = Some AND \<and> precpred p 3 then 1 else 2)"

text \<open>
  \<^verbatim>\<open>expr(_p)\<close> is \<open>expr p\<close>: the switch over decision 0 is \<open>expr_primary\<close> and the
  \<^verbatim>\<open>while\<close> loop that follows it is \<open>expr_loop\<close>, whose argument \<open>ctx\<close> is the current
  \<^verbatim>\<open>_localctx\<close> (\<^verbatim>\<open>pushNewRecursionContext\<close> makes it the first child of the new
  \<^verbatim>\<open>AndExpressionContext\<close> or \<^verbatim>\<open>OrExpressionContext\<close>).

  Decision 0 (ATN state 30) chooses among the six primary alternatives.
  \<^verbatim>\<open>adaptivePredict\<close> belongs to the ANTLR runtime; what it returns is fixed by the
  ATN in \<^verbatim>\<open>_serializedATN\<close>: it reads ahead as far as it takes to tell the alternatives
  apart, returns the alternative that still matches, and throws
  \<^verbatim>\<open>NoViableAltException\<close> at the token where the last one stops matching.
  Alternatives 1 and 4 both start with a \<^verbatim>\<open>traversalAllowedExpr\<close> and alternatives 2
  and 3 with a \<^verbatim>\<open>traversal\<close> and a \<^verbatim>\<open>traversalAllowedExpr\<close>, so the lookahead runs over
  that whole prefix and the token after it decides; a \<^verbatim>\<open>STAR\<close> that no
  \<^verbatim>\<open>traversalAllowedExpr\<close> can follow is alternative 6. The lookahead is written with
  the rule functions themselves, used as recognisers. A first token that starts no
  alternative is reported at that token.
\<close>

function expr ::
    "nat \<Rightarrow> Token list \<Rightarrow> RecognitionException + (ExprContext \<times> Token list)"
  and expr_primary ::
    "Token list \<Rightarrow> RecognitionException + (ExprContext \<times> Token list)"
  and expr_loop ::
    "nat \<Rightarrow> ExprContext \<Rightarrow> Token list \<Rightarrow> RecognitionException + (ExprContext \<times> Token list)"
  and traversalAllowedExpr ::
    "Token list \<Rightarrow> RecognitionException + (TraversalAllowedExprContext \<times> Token list)"
  and adaptivePredict_0 :: "Token list \<Rightarrow> RecognitionException + nat"
where
  "expr p ts =
     (case expr_primary ts of Inl e \<Rightarrow> Inl e | Inr (ctx, r) \<Rightarrow> expr_loop p ctx r)"
| "expr_primary ts =
     (case adaptivePredict_0 ts of Inl e \<Rightarrow> Inl e | Inr alt \<Rightarrow>
        if alt = 1 then
          (case traversalAllowedExpr ts of Inl e \<Rightarrow> Inl e | Inr (x, r) \<Rightarrow>
             Inr (TraversalAllowedExpressionContext x, r))
        else if alt = 2 then
          (case traversal ts of Inl e \<Rightarrow> Inl e | Inr (u, r1) \<Rightarrow>
          (case traversalAllowedExpr r1 of Inl e \<Rightarrow> Inl e | Inr (x, r2) \<Rightarrow>
          (case traversal r2 of Inl e \<Rightarrow> Inl e | Inr (d, r3) \<Rightarrow>
             Inr (UpAndDownTraversalExpressionContext u x d, r3))))
        else if alt = 3 then
          (case traversal ts of Inl e \<Rightarrow> Inl e | Inr (u, r1) \<Rightarrow>
          (case traversalAllowedExpr r1 of Inl e \<Rightarrow> Inl e | Inr (x, r2) \<Rightarrow>
             Inr (UpTraversalExpressionContext u x, r2)))
        else if alt = 4 then
          (case traversalAllowedExpr ts of Inl e \<Rightarrow> Inl e | Inr (x, r1) \<Rightarrow>
          (case traversal r1 of Inl e \<Rightarrow> Inl e | Inr (d, r2) \<Rightarrow>
             Inr (DownTraversalExpressionContext x d, r2)))
        else if alt = 5 then
          (case match NOT ts of Inl e \<Rightarrow> Inl e | Inr (n, r1) \<Rightarrow>
          (case expr 4 r1 of Inl e \<Rightarrow> Inl e | Inr (x, r2) \<Rightarrow>
             Inr (NotExpressionContext n x, r2)))
        else
          (case match STAR ts of Inl e \<Rightarrow> Inl e | Inr (s, r) \<Rightarrow>
             Inr (AllExpressionContext s, r)))"
| "expr_loop p ctx ts =
     (if adaptivePredict_2 p ts \<noteq> 2 then
        (if adaptivePredict_1 p ts = 1 then
           (if \<not> precpred p 3 then Inl (RecognitionException (LT1 ts))
            else
              (case match AND ts of Inl e \<Rightarrow> Inl e | Inr (a, r1) \<Rightarrow>
              (case expr 4 r1 of Inl e \<Rightarrow> Inl e | Inr (rhs, r2) \<Rightarrow>
                 expr_loop p (AndExpressionContext ctx a rhs) r2)))
         else
           (if \<not> precpred p 2 then Inl (RecognitionException (LT1 ts))
            else
              (case match OR ts of Inl e \<Rightarrow> Inl e | Inr (a, r1) \<Rightarrow>
              (case expr 3 r1 of Inl e \<Rightarrow> Inl e | Inr (rhs, r2) \<Rightarrow>
                 expr_loop p (OrExpressionContext ctx a rhs) r2))))
      else Inr (ctx, ts))"
| "traversalAllowedExpr ts =
     (case LA1 ts of
        Some NAME \<Rightarrow>
          (case attributeExpr ts of Inl e \<Rightarrow> Inl e | Inr (a, r) \<Rightarrow>
             Inr (AttributeExpressionContext a, r))
      | Some NAME_SUBSTRING \<Rightarrow>
          (case attributeExpr ts of Inl e \<Rightarrow> Inl e | Inr (a, r) \<Rightarrow>
             Inr (AttributeExpressionContext a, r))
      | Some LPAREN \<Rightarrow>
          (case match LPAREN ts of Inl e \<Rightarrow> Inl e | Inr (l, r1) \<Rightarrow>
          (case expr 0 r1 of Inl e \<Rightarrow> Inl e | Inr (x, r2) \<Rightarrow>
          (case match RPAREN r2 of Inl e \<Rightarrow> Inl e | Inr (rp, r3) \<Rightarrow>
             Inr (ParenthesizedExpressionContext l x rp, r3))))
      | _ \<Rightarrow> Inl (RecognitionException (LT1 ts)))"
| "adaptivePredict_0 ts =
     (case LA1 ts of
        Some NOT \<Rightarrow> Inr 5
      | Some NAME \<Rightarrow>
          (case traversalAllowedExpr ts of Inl e \<Rightarrow> Inl e | Inr (x, r) \<Rightarrow>
             if LA1 r = Some STAR \<or> LA1 r = Some PLUS then Inr 4 else Inr 1)
      | Some NAME_SUBSTRING \<Rightarrow>
          (case traversalAllowedExpr ts of Inl e \<Rightarrow> Inl e | Inr (x, r) \<Rightarrow>
             if LA1 r = Some STAR \<or> LA1 r = Some PLUS then Inr 4 else Inr 1)
      | Some LPAREN \<Rightarrow>
          (case traversalAllowedExpr ts of Inl e \<Rightarrow> Inl e | Inr (x, r) \<Rightarrow>
             if LA1 r = Some STAR \<or> LA1 r = Some PLUS then Inr 4 else Inr 1)
      | Some STAR \<Rightarrow>
          (case traversal ts of Inl e \<Rightarrow> Inl e | Inr (u, r1) \<Rightarrow>
             if LA1 r1 = Some NAME \<or> LA1 r1 = Some NAME_SUBSTRING \<or> LA1 r1 = Some LPAREN
             then
               (case traversalAllowedExpr r1 of Inl e \<Rightarrow> Inl e | Inr (x, r2) \<Rightarrow>
                  if LA1 r2 = Some STAR \<or> LA1 r2 = Some PLUS then Inr 2 else Inr 3)
             else Inr 6)
      | Some PLUS \<Rightarrow>
          (case traversal ts of Inl e \<Rightarrow> Inl e | Inr (u, r1) \<Rightarrow>
          (case traversalAllowedExpr r1 of Inl e \<Rightarrow> Inl e | Inr (x, r2) \<Rightarrow>
             if LA1 r2 = Some STAR \<or> LA1 r2 = Some PLUS then Inr 2 else Inr 3))
      | _ \<Rightarrow> Inl (RecognitionException (LT1 ts)))"
  by pat_completeness auto

text \<open>
  Termination: every recursive call on a result of an earlier call gets less input,
  because every rule that succeeds has consumed a token.
\<close>

lemma parser_length_partial:
  "expr_expr_primary_expr_loop_traversalAllowedExpr_adaptivePredict_0_dom (Inl (Inl (p, ts)))
     \<Longrightarrow> (case expr p ts of Inl e \<Rightarrow> True | Inr (c, r) \<Rightarrow> length r < length ts)"
  "expr_expr_primary_expr_loop_traversalAllowedExpr_adaptivePredict_0_dom (Inl (Inr ts2))
     \<Longrightarrow> (case expr_primary ts2 of Inl e \<Rightarrow> True | Inr (c, r) \<Rightarrow> length r < length ts2)"
  "expr_expr_primary_expr_loop_traversalAllowedExpr_adaptivePredict_0_dom (Inr (Inl (p3, ctx3, ts3)))
     \<Longrightarrow> (case expr_loop p3 ctx3 ts3 of Inl e \<Rightarrow> True | Inr (c, r) \<Rightarrow> length r \<le> length ts3)"
  "expr_expr_primary_expr_loop_traversalAllowedExpr_adaptivePredict_0_dom (Inr (Inr (Inl ts4)))
     \<Longrightarrow> (case traversalAllowedExpr ts4 of Inl e \<Rightarrow> True | Inr (c, r) \<Rightarrow> length r < length ts4)"
  "expr_expr_primary_expr_loop_traversalAllowedExpr_adaptivePredict_0_dom (Inr (Inr (Inr ts5)))
     \<Longrightarrow> True"
proof (induct p ts and ts2 and p3 ctx3 ts3 and ts4 and ts5
    rule: expr_expr_primary_expr_loop_traversalAllowedExpr_adaptivePredict_0.pinduct)
  case (1 p ts)
  show ?case
  proof (cases "expr_primary ts")
    case (Inl e)
    then show ?thesis using "1.hyps"(1) by (simp add: expr.psimps)
  next
    case (Inr b)
    obtain ctx r where b: "b = (ctx, r)" by (cases b)
    have l1: "length r < length ts" using "1.hyps"(2) Inr b by simp
    have "case expr_loop p ctx r of Inl e \<Rightarrow> True | Inr (c, r') \<Rightarrow> length r' \<le> length r"
      using "1.hyps"(3) [OF Inr b [symmetric]] .
    with l1 show ?thesis using "1.hyps"(1) Inr b
      by (auto simp: expr.psimps split: sum.splits)
  qed
next
  case (2 ts)
  show ?case
  proof (cases "adaptivePredict_0 ts")
    case (Inl e)
    then show ?thesis using "2.hyps"(1) by (simp add: expr_primary.psimps)
  next
    case (Inr alt)
    note dom = "2.hyps"(1)
    consider "alt = 1" | "alt = 2" | "alt = 3" | "alt = 4" | "alt = 5"
      | "alt \<noteq> 1" "alt \<noteq> 2" "alt \<noteq> 3" "alt \<noteq> 4" "alt \<noteq> 5" by blast
    then show ?thesis
    proof cases
      case 1
      with "2.hyps"(3) [OF Inr] show ?thesis using dom Inr
        by (auto simp: expr_primary.psimps split: sum.splits)
    next
      case 2
      show ?thesis
      proof (cases "traversal ts")
        case (Inl e)
        then show ?thesis using dom Inr 2 by (simp add: expr_primary.psimps)
      next
        case (Inr b)
        obtain u r1 where b: "b = (u, r1)" by (cases b)
        have l1: "length r1 < length ts" using traversal_shorter [of ts] Inr b by simp
        have ih: "case traversalAllowedExpr r1 of Inl e \<Rightarrow> True | Inr (c, r) \<Rightarrow> length r < length r1"
          using "2.hyps"(4) [OF \<open>adaptivePredict_0 ts = Inr alt\<close> _ 2 Inr b [symmetric]] 2 by simp
        show ?thesis
        proof (cases "traversalAllowedExpr r1")
          case (Inl e)
          then show ?thesis using dom \<open>adaptivePredict_0 ts = Inr alt\<close> 2 Inr b
            by (simp add: expr_primary.psimps)
        next
          case (Inr b2)
          obtain x r2 where b2: "b2 = (x, r2)" by (cases b2)
          have l2: "length r2 < length r1" using ih Inr b2 by simp
          show ?thesis
            using dom \<open>adaptivePredict_0 ts = Inr alt\<close> 2 \<open>traversal ts = Inr b\<close> b Inr b2 l1 l2
              traversal_shorter [of r2]
            by (auto simp: expr_primary.psimps split: sum.splits)
        qed
      qed
    next
      case 3
      show ?thesis
      proof (cases "traversal ts")
        case (Inl e)
        then show ?thesis using dom Inr 3 by (simp add: expr_primary.psimps)
      next
        case (Inr b)
        obtain u r1 where b: "b = (u, r1)" by (cases b)
        have l1: "length r1 < length ts" using traversal_shorter [of ts] Inr b by simp
        have ih: "case traversalAllowedExpr r1 of Inl e \<Rightarrow> True | Inr (c, r) \<Rightarrow> length r < length r1"
          using "2.hyps"(5) [OF \<open>adaptivePredict_0 ts = Inr alt\<close> _ _ 3 Inr b [symmetric]] 3 by simp
        show ?thesis
          using dom \<open>adaptivePredict_0 ts = Inr alt\<close> 3 Inr b l1 ih
          by (auto simp: expr_primary.psimps split: sum.splits)
      qed
    next
      case 4
      have ih: "case traversalAllowedExpr ts of Inl e \<Rightarrow> True | Inr (c, r) \<Rightarrow> length r < length ts"
        using "2.hyps"(6) [OF Inr _ _ _ 4] 4 by simp
      show ?thesis
      proof (cases "traversalAllowedExpr ts")
        case (Inl e)
        then show ?thesis using dom Inr 4 by (simp add: expr_primary.psimps)
      next
        case (Inr b)
        obtain x r1 where b: "b = (x, r1)" by (cases b)
        have l1: "length r1 < length ts" using ih Inr b by simp
        show ?thesis
          using dom \<open>adaptivePredict_0 ts = Inr alt\<close> 4 Inr b l1 traversal_shorter [of r1]
          by (auto simp: expr_primary.psimps split: sum.splits)
      qed
    next
      case 5
      show ?thesis
      proof (cases "match NOT ts")
        case (Inl e)
        then show ?thesis using dom Inr 5 by (simp add: expr_primary.psimps)
      next
        case (Inr b)
        obtain n r1 where b: "b = (n, r1)" by (cases b)
        have l1: "length r1 < length ts" using match_shorter [where k=NOT and ts=ts] Inr b by simp
        have ih: "case expr 4 r1 of Inl e \<Rightarrow> True | Inr (c, r) \<Rightarrow> length r < length r1"
          using "2.hyps"(7) [OF \<open>adaptivePredict_0 ts = Inr alt\<close> _ _ _ _ 5 Inr b [symmetric]] 5 by simp
        show ?thesis
          using dom \<open>adaptivePredict_0 ts = Inr alt\<close> 5 Inr b l1 ih
          by (auto simp: expr_primary.psimps split: sum.splits)
      qed
    next
      case 6
      then show ?thesis
        using dom Inr match_shorter [where k=STAR and ts=ts]
        by (auto simp: expr_primary.psimps split: sum.splits)
    qed
  qed
next
  case (3 p ctx ts)
  note dom = "3.hyps"(1)
  show ?case
  proof (cases "adaptivePredict_2 p ts \<noteq> 2")
    case False
    then show ?thesis using dom by (simp add: expr_loop.psimps)
  next
    case True
    note enter = True
    show ?thesis
    proof (cases "adaptivePredict_1 p ts = 1")
      case True
      note a1 = True
      show ?thesis
      proof (cases "precpred p 3")
        case False
        then show ?thesis using dom enter a1 by (simp add: expr_loop.psimps)
      next
        case True
        note pp = True
        show ?thesis
        proof (cases "match AND ts")
          case (Inl e)
          then show ?thesis using dom enter a1 pp by (simp add: expr_loop.psimps)
        next
          case (Inr b)
          obtain a r1 where b: "b = (a, r1)" by (cases b)
          have l1: "length r1 < length ts" using match_shorter [where k=AND and ts=ts] Inr b by simp
          have ih1: "case expr 4 r1 of Inl e \<Rightarrow> True | Inr (c, r) \<Rightarrow> length r < length r1"
            using "3.hyps"(2) [OF enter a1 _ Inr b [symmetric]] pp by simp
          show ?thesis
          proof (cases "expr 4 r1")
            case (Inl e)
            then show ?thesis using dom enter a1 pp \<open>match AND ts = Inr b\<close> b
              by (simp add: expr_loop.psimps)
          next
            case (Inr b2)
            obtain rhs r2 where b2: "b2 = (rhs, r2)" by (cases b2)
            have l2: "length r2 < length r1" using ih1 Inr b2 by simp
            have ih2: "case expr_loop p (AndExpressionContext ctx a rhs) r2 of
                         Inl e \<Rightarrow> True | Inr (c, r) \<Rightarrow> length r \<le> length r2"
              using "3.hyps"(3) [OF enter a1 _ \<open>match AND ts = Inr b\<close> b [symmetric] Inr b2 [symmetric]] pp
              by simp
            show ?thesis
              using dom enter a1 pp \<open>match AND ts = Inr b\<close> b Inr b2 l1 l2 ih2
              by (auto simp: expr_loop.psimps split: sum.splits)
          qed
        qed
      qed
    next
      case False
      note a1 = False
      show ?thesis
      proof (cases "precpred p 2")
        case False
        then show ?thesis using dom enter a1 by (simp add: expr_loop.psimps)
      next
        case True
        note pp = True
        show ?thesis
        proof (cases "match OR ts")
          case (Inl e)
          then show ?thesis using dom enter a1 pp by (simp add: expr_loop.psimps)
        next
          case (Inr b)
          obtain a r1 where b: "b = (a, r1)" by (cases b)
          have l1: "length r1 < length ts" using match_shorter [where k=OR and ts=ts] Inr b by simp
          have ih1: "case expr 3 r1 of Inl e \<Rightarrow> True | Inr (c, r) \<Rightarrow> length r < length r1"
            using "3.hyps"(4) [OF enter a1 _ Inr b [symmetric]] pp by simp
          show ?thesis
          proof (cases "expr 3 r1")
            case (Inl e)
            then show ?thesis using dom enter a1 pp \<open>match OR ts = Inr b\<close> b
              by (simp add: expr_loop.psimps)
          next
            case (Inr b2)
            obtain rhs r2 where b2: "b2 = (rhs, r2)" by (cases b2)
            have l2: "length r2 < length r1" using ih1 Inr b2 by simp
            have ih2: "case expr_loop p (OrExpressionContext ctx a rhs) r2 of
                         Inl e \<Rightarrow> True | Inr (c, r) \<Rightarrow> length r \<le> length r2"
              using "3.hyps"(5) [OF enter a1 _ \<open>match OR ts = Inr b\<close> b [symmetric] Inr b2 [symmetric]] pp
              by simp
            show ?thesis
              using dom enter a1 pp \<open>match OR ts = Inr b\<close> b Inr b2 l1 l2 ih2
              by (auto simp: expr_loop.psimps split: sum.splits)
          qed
        qed
      qed
    qed
  qed
next
  case (4 ts)
  note dom = "4.hyps"(1)
  show ?case
  proof (cases "LA1 ts = Some LPAREN")
    case False
    then show ?thesis
      using dom attributeExpr_shorter [of ts]
      by (auto simp: traversalAllowedExpr.psimps split: option.splits TokenType.splits sum.splits)
  next
    case True
    show ?thesis
    proof (cases "match LPAREN ts")
      case (Inl e)
      then show ?thesis using dom True by (simp add: traversalAllowedExpr.psimps)
    next
      case (Inr b)
      obtain l r1 where b: "b = (l, r1)" by (cases b)
      have l1: "length r1 < length ts" using match_shorter [where k=LPAREN and ts=ts] Inr b by simp
      have ih: "case expr 0 r1 of Inl e \<Rightarrow> True | Inr (c, r) \<Rightarrow> length r < length r1"
        using "4.hyps"(2) [OF True _ Inr b [symmetric]] by simp
      show ?thesis
      proof (cases "expr 0 r1")
        case (Inl e)
        then show ?thesis using dom True \<open>match LPAREN ts = Inr b\<close> b
          by (simp add: traversalAllowedExpr.psimps)
      next
        case (Inr b2)
        obtain x r2 where b2: "b2 = (x, r2)" by (cases b2)
        have l2: "length r2 < length r1" using ih Inr b2 by simp
        show ?thesis
          using dom True \<open>match LPAREN ts = Inr b\<close> b Inr b2 l1 l2 match_shorter [where k=RPAREN and ts=r2]
          by (auto simp: traversalAllowedExpr.psimps split: sum.splits)
      qed
    qed
  qed
next
  case (5 ts)
  show ?case by simp
qed

lemma expr_primary_length_partial:
  "expr_expr_primary_expr_loop_traversalAllowedExpr_adaptivePredict_0_dom (Inl (Inr ts))
     \<Longrightarrow> expr_primary ts = Inr (c, r) \<Longrightarrow> length r < length ts"
  using parser_length_partial(2) [of ts] by simp

lemma expr_length_partial:
  "expr_expr_primary_expr_loop_traversalAllowedExpr_adaptivePredict_0_dom (Inl (Inl (p, ts)))
     \<Longrightarrow> expr p ts = Inr (c, r) \<Longrightarrow> length r < length ts"
  using parser_length_partial(1) [of p ts] by simp

termination expr
  apply (relation "measure (\<lambda>x. case x of
      Inl (Inl (p, ts)) \<Rightarrow> 4 * length ts + 3
    | Inl (Inr ts) \<Rightarrow> 4 * length ts + 2
    | Inr (Inl (p, ctx, ts)) \<Rightarrow> 4 * length ts
    | Inr (Inr (Inl ts)) \<Rightarrow> 4 * length ts
    | Inr (Inr (Inr ts)) \<Rightarrow> 4 * length ts + 1)")
                      apply simp_all
            apply (auto dest!: match_length traversal_length expr_primary_length_partial
              expr_length_partial)
  done

declare expr.simps [simp del] expr_primary.simps [simp del] expr_loop.simps [simp del]
  traversalAllowedExpr.simps [simp del] adaptivePredict_0.simps [simp del]

text \<open>
  \<^verbatim>\<open>start()\<close>: an expression at precedence 0, then \<^verbatim>\<open>match(EOF)\<close>. \<open>start\<close> is the parse
  up to the first reported error: the tree of an input parsed with no error, or the
  first error.
\<close>

definition start :: "Token list \<Rightarrow> RecognitionException + StartContext" where
  "start ts =
     (case expr 0 ts of Inl e \<Rightarrow> Inl e | Inr (ctx, r) \<Rightarrow>
     (case matchEOF r of Inl e \<Rightarrow> Inl e | Inr u \<Rightarrow> Inr (StartContext ctx)))"

text \<open>
  What \<^verbatim>\<open>start()\<close> returns. Its \<^verbatim>\<open>catch\<close> clause stores the \<^verbatim>\<open>RecognitionException\<close> in
  \<^verbatim>\<open>_localctx.exception\<close>, calls \<^verbatim>\<open>reportError\<close> and \<^verbatim>\<open>recover\<close>, and the method then
  returns \<^verbatim>\<open>_localctx\<close> with the children added so far. The record holds that
  context: the child \<^verbatim>\<open>expr()\<close>, the error nodes (the tokens that recovery skipped),
  whether the child \<^verbatim>\<open>EOF()\<close> is there, and the field \<^verbatim>\<open>exception\<close>.
\<close>

record StartReturn =
  expr_child :: ExprContext
  errorNodes :: "Token list"
  EOF_child :: bool
  exception :: "RecognitionException option"

text \<open>
  \<open>start_localctx\<close> follows \<^verbatim>\<open>start()\<close> to its \<^verbatim>\<open>return\<close> when \<^verbatim>\<open>expr(0)\<close> has returned with
  no error reported, and gives the returned context together with the offending
  tokens handed to the error listeners, in order. With \<^verbatim>\<open>r\<close> the tokens that \<^verbatim>\<open>expr(0)\<close>
  left unread, \<^verbatim>\<open>match(EOF)\<close> does one of three things.

    \<^item> \<^verbatim>\<open>r\<close> is empty: \<^verbatim>\<open>EOF\<close> is matched and becomes a child.

    \<^item> \<^verbatim>\<open>r\<close> is one token \<^verbatim>\<open>t\<close>: \<^verbatim>\<open>recoverInline\<close> finds \<^verbatim>\<open>EOF\<close> right behind it
      (\<^verbatim>\<open>singleTokenDeletion\<close>), reports \<^verbatim>\<open>t\<close> as an unwanted token, consumes it as an
      error node and matches \<^verbatim>\<open>EOF\<close>. Nothing is thrown.

    \<^item> \<^verbatim>\<open>r\<close> has more tokens: no token can be deleted or inserted (nothing follows
      \<^verbatim>\<open>EOF\<close>), so \<^verbatim>\<open>recoverInline\<close> throws an \<^verbatim>\<open>InputMismatchException\<close> at the first
      of them. The \<^verbatim>\<open>catch\<close> clause of \<^verbatim>\<open>start()\<close> stores it, \<^verbatim>\<open>reportError\<close> hands it to
      the listeners, and \<^verbatim>\<open>recover\<close> consumes the tokens up to \<^verbatim>\<open>EOF\<close> (the outermost
      rule has an empty recovery set), each one as an error node.

  In all three cases the child \<^verbatim>\<open>expr()\<close> of the returned context is the tree that
  \<^verbatim>\<open>expr(0)\<close> built. When the first error is reported inside \<^verbatim>\<open>expr(0)\<close>, the result is
  that error, as for \<open>start\<close>: what \<^verbatim>\<open>expr\<close> returns after its own recovery is not
  followed.
\<close>

definition start_localctx ::
  "Token list \<Rightarrow> RecognitionException + (StartReturn \<times> Token option list)" where
  "start_localctx ts =
     (case expr 0 ts of
        Inl e \<Rightarrow> Inl e
      | Inr (ctx, r) \<Rightarrow>
          (case r of
             [] \<Rightarrow>
               Inr (\<lparr>expr_child = ctx, errorNodes = [], EOF_child = True, exception = None\<rparr>, [])
           | t # r' \<Rightarrow>
               if r' = [] then
                 Inr (\<lparr>expr_child = ctx, errorNodes = [t], EOF_child = True, exception = None\<rparr>,
                      [Some t])
               else
                 Inr (\<lparr>expr_child = ctx, errorNodes = t # r', EOF_child = False,
                        exception = Some (RecognitionException (Some t))\<rparr>,
                      [Some t])))"

subsection \<open>Concrete tokens\<close>

text \<open>A token of a given type, text and start offset, for the concrete inputs below.\<close>

definition tok :: "TokenType \<Rightarrow> string \<Rightarrow> nat \<Rightarrow> Token" where
  "tok k s p = \<lparr>kind = k, tokenText = s, position = p\<rparr>"

text \<open>
  The three tokens of the attribute expression \<^verbatim>\<open>name:v\<close> written at offset \<open>p\<close>, and the
  context \<^verbatim>\<open>traversalAllowedExpr\<close> builds from them.
\<close>

definition name_tokens :: "string \<Rightarrow> nat \<Rightarrow> Token list" where
  "name_tokens v p = [tok NAME ''name'' p, tok COLON '':'' (p + 4), tok UNQUOTED_STRING v (p + 5)]"

definition name_context :: "string \<Rightarrow> nat \<Rightarrow> TraversalAllowedExprContext" where
  "name_context v p =
     AttributeExpressionContext
       (NameExprContext (tok NAME ''name'' p) (tok COLON '':'' (p + 4))
          (ValueContext (tok UNQUOTED_STRING v (p + 5))))"

subsection \<open>Operands\<close>

text \<open>
  A traversal qualifier as a run of tokens: one \<^verbatim>\<open>STAR\<close>, or one or more \<^verbatim>\<open>PLUS\<close>.
\<close>

definition traversal_run :: "Token list \<Rightarrow> bool" where
  "traversal_run u \<longleftrightarrow>
     (\<exists>s. u = [s] \<and> kind s = STAR) \<or> (u \<noteq> [] \<and> list_all (\<lambda>t. kind t = PLUS) u)"

text \<open>
  Statements about inputs such as \<^verbatim>\<open>a or b and c\<close> range over what \<^verbatim>\<open>a\<close>, \<^verbatim>\<open>b\<close> and
  \<^verbatim>\<open>c\<close> may be. \<open>tae_operand xs X\<close>: the rule \<^verbatim>\<open>traversalAllowedExpr\<close> reads exactly
  the tokens \<open>xs\<close> and builds \<open>X\<close>, whatever comes after them. \<open>operand xs A\<close>: the
  switch over decision 0 reads exactly \<open>xs\<close> and builds \<open>A\<close> whenever the next token
  is one that can follow an expression: the end of the input, \<^verbatim>\<open>AND\<close>, \<^verbatim>\<open>OR\<close> or
  \<^verbatim>\<open>RPAREN\<close>.
\<close>

definition tae_operand :: "Token list \<Rightarrow> TraversalAllowedExprContext \<Rightarrow> bool" where
  "tae_operand xs X \<longleftrightarrow> (\<forall>r. traversalAllowedExpr (xs @ r) = Inr (X, r))"

definition follows_expr :: "Token list \<Rightarrow> bool" where
  "follows_expr r \<longleftrightarrow>
     LA1 r = None \<or> LA1 r = Some AND \<or> LA1 r = Some OR \<or> LA1 r = Some RPAREN"

definition operand :: "Token list \<Rightarrow> ExprContext \<Rightarrow> bool" where
  "operand xs A \<longleftrightarrow> (\<forall>r. follows_expr r \<longrightarrow> expr_primary (xs @ r) = Inr (A, r))"

text \<open>
  \<open>loop_exits p r\<close>: the operator loop of \<^verbatim>\<open>expr\<close>, entered at precedence \<open>p\<close>, stops
  before the tokens \<open>r\<close>: the next token is neither an \<^verbatim>\<open>AND\<close> whose predicate
  \<^verbatim>\<open>precpred(_ctx, 3)\<close> holds nor an \<^verbatim>\<open>OR\<close> whose predicate \<^verbatim>\<open>precpred(_ctx, 2)\<close> holds.
\<close>

definition loop_exits :: "nat \<Rightarrow> Token list \<Rightarrow> bool" where
  "loop_exits p r \<longleftrightarrow> \<not> (LA1 r = Some AND \<and> p \<le> 3) \<and> \<not> (LA1 r = Some OR \<and> p \<le> 2)"

subsection \<open>The ordering of the traversal shapes, as the specification words it\<close>

text \<open>
  The specification describes the choice among the four traversal shapes as an
  ordered one: up-and-down is checked before up-only, up-only before down-only, and
  down-only before the untraversed alternative. \<open>shape_by_spec_ordering\<close> is that
  description and nothing else: each shape is tried by running the rules of its
  production one after the other on the input, and the first shape that matches is
  the answer. It is compared with \<open>expr_primary\<close> below.
\<close>

definition up_and_down_shape :: "Token list \<Rightarrow> (ExprContext \<times> Token list) option" where
  "up_and_down_shape ts =
     (case traversal ts of Inl e \<Rightarrow> None | Inr (u, r1) \<Rightarrow>
     (case traversalAllowedExpr r1 of Inl e \<Rightarrow> None | Inr (x, r2) \<Rightarrow>
     (case traversal r2 of Inl e \<Rightarrow> None | Inr (d, r3) \<Rightarrow>
        Some (UpAndDownTraversalExpressionContext u x d, r3))))"

definition up_shape :: "Token list \<Rightarrow> (ExprContext \<times> Token list) option" where
  "up_shape ts =
     (case traversal ts of Inl e \<Rightarrow> None | Inr (u, r1) \<Rightarrow>
     (case traversalAllowedExpr r1 of Inl e \<Rightarrow> None | Inr (x, r2) \<Rightarrow>
        Some (UpTraversalExpressionContext u x, r2)))"

definition down_shape :: "Token list \<Rightarrow> (ExprContext \<times> Token list) option" where
  "down_shape ts =
     (case traversalAllowedExpr ts of Inl e \<Rightarrow> None | Inr (x, r1) \<Rightarrow>
     (case traversal r1 of Inl e \<Rightarrow> None | Inr (d, r2) \<Rightarrow>
        Some (DownTraversalExpressionContext x d, r2)))"

definition untraversed_shape :: "Token list \<Rightarrow> (ExprContext \<times> Token list) option" where
  "untraversed_shape ts =
     (case traversalAllowedExpr ts of Inl e \<Rightarrow> None | Inr (x, r) \<Rightarrow>
        Some (TraversalAllowedExpressionContext x, r))"

definition shape_by_spec_ordering :: "Token list \<Rightarrow> (ExprContext \<times> Token list) option" where
  "shape_by_spec_ordering ts =
     (case up_and_down_shape ts of Some res \<Rightarrow> Some res | None \<Rightarrow>
     (case up_shape ts of Some res \<Rightarrow> Some res | None \<Rightarrow>
     (case down_shape ts of Some res \<Rightarrow> Some res | None \<Rightarrow>
        untraversed_shape ts)))"

fun is_traversal_shape :: "ExprContext \<Rightarrow> bool" where
  "is_traversal_shape (TraversalAllowedExpressionContext x) = True"
| "is_traversal_shape (UpAndDownTraversalExpressionContext u x d) = True"
| "is_traversal_shape (UpTraversalExpressionContext u x) = True"
| "is_traversal_shape (DownTraversalExpressionContext x d) = True"
| "is_traversal_shape (NotExpressionContext n x) = False"
| "is_traversal_shape (AndExpressionContext l a r) = False"
| "is_traversal_shape (OrExpressionContext l a r) = False"
| "is_traversal_shape (AllExpressionContext s) = False"

subsection \<open>The evaluation model of the specification\<close>

text \<open>
  The visitor that turns a parse tree into the selection's AST and the evaluator that
  runs it on a graph are not part of the parser file. They are written here from the
  specification (sections 3, 4.3 and 6), for the one claim that evaluates a parsed
  selection.
\<close>

text \<open>
  Modelled from the spec: the traversal depth of the AST, \<^verbatim>\<open>"*"\<close> or an integer.
\<close>

datatype Depth = Unbounded | Bounded nat

text \<open>
  Modelled from the spec: the attribute of an \<^verbatim>\<open>AttributeMatch\<close>, the keyword \<^verbatim>\<open>NAME\<close> or
  \<^verbatim>\<open>NAME_SUBSTRING\<close>.
\<close>

datatype AttributeKind = NameAttribute | NameSubstringAttribute

text \<open>
  Modelled from the spec: the AST, one variant per grammar production. \<^verbatim>\<open>All\<close> and
  \<^verbatim>\<open>Not\<close> carry a suffix because HOL has constants of these names.
\<close>

datatype AST =
  All_ast
  | AttributeMatch AttributeKind string
  | Not_ast AST
  | And AST AST
  | Or AST AST
  | UpTraversal Depth AST
  | DownTraversal Depth AST
  | UpAndDownTraversal Depth AST Depth
  | Parenthesized AST

text \<open>
  Modelled from the spec: the \<^verbatim>\<open>GraphView\<close> the evaluator is given: \<^verbatim>\<open>allNodeIds\<close>,
  \<^verbatim>\<open>attribute\<close>, \<^verbatim>\<open>upstreamOf\<close> (direct predecessors) and \<^verbatim>\<open>downstreamOf\<close> (direct
  successors).
\<close>

type_synonym NodeId = string

record GraphView =
  allNodeIds :: "NodeId set"
  attribute :: "NodeId \<Rightarrow> string \<Rightarrow> string"
  upstreamOf :: "NodeId \<Rightarrow> NodeId set"
  downstreamOf :: "NodeId \<Rightarrow> NodeId set"

text \<open>
  Modelled from the spec: a traversal is a walk bounded by hop count. One hop adds the
  direct neighbours of every node reached so far; a bounded traversal makes as many
  hops as its depth, an unbounded one collects everything any number of hops reaches.
\<close>

definition hop :: "(NodeId \<Rightarrow> NodeId set) \<Rightarrow> NodeId set \<Rightarrow> NodeId set" where
  "hop neighbours S = S \<union> (\<Union>n\<in>S. neighbours n)"

fun within_hops :: "(NodeId \<Rightarrow> NodeId set) \<Rightarrow> Depth \<Rightarrow> NodeId set \<Rightarrow> NodeId set" where
  "within_hops neighbours (Bounded d) S = (hop neighbours ^^ d) S"
| "within_hops neighbours Unbounded S = (\<Union>d. (hop neighbours ^^ d) S)"

text \<open>
  Modelled from the spec: \<^verbatim>\<open>evaluate(ast, graph)\<close>, the semantics per AST variant of
  section 4.3.
\<close>

fun evaluate :: "AST \<Rightarrow> GraphView \<Rightarrow> NodeId set" where
  "evaluate All_ast g = allNodeIds g"
| "evaluate (AttributeMatch NameAttribute v) g =
     {n \<in> allNodeIds g. attribute g n ''name'' = v}"
| "evaluate (AttributeMatch NameSubstringAttribute v) g =
     {n \<in> allNodeIds g. sublist v (attribute g n ''name'')}"
| "evaluate (Not_ast x) g = allNodeIds g - evaluate x g"
| "evaluate (And l r) g = evaluate l g \<inter> evaluate r g"
| "evaluate (Or l r) g = evaluate l g \<union> evaluate r g"
| "evaluate (UpTraversal d x) g = within_hops (upstreamOf g) d (evaluate x g)"
| "evaluate (DownTraversal d x) g = within_hops (downstreamOf g) d (evaluate x g)"
| "evaluate (UpAndDownTraversal du x dd) g =
     within_hops (upstreamOf g) du (evaluate x g) \<union> within_hops (downstreamOf g) dd (evaluate x g)"
| "evaluate (Parenthesized x) g = evaluate x g"

text \<open>
  Modelled from the spec: the depth a traversal qualifier denotes: unbounded for
  \<^verbatim>\<open>*\<close>, otherwise the count of \<^verbatim>\<open>+\<close> tokens.
\<close>

definition depth_of :: "TraversalContext \<Rightarrow> Depth" where
  "depth_of ctx =
     (case TraversalContext_STAR ctx of
        Some s \<Rightarrow> Unbounded
      | None \<Rightarrow> Bounded (length (TraversalContext_PLUS ctx)))"

text \<open>
  Modelled from the spec: the AST of a parse tree, variant by variant; the value of an
  attribute match is the text of the value token.
\<close>

fun ast_of_attributeExpr :: "AttributeExprContext \<Rightarrow> AST" where
  "ast_of_attributeExpr (NameExprContext n c (ValueContext v)) =
     AttributeMatch NameAttribute (tokenText v)"
| "ast_of_attributeExpr (NameSubstringExprContext n c (ValueContext v)) =
     AttributeMatch NameSubstringAttribute (tokenText v)"

fun ast_of_expr :: "ExprContext \<Rightarrow> AST"
  and ast_of_traversalAllowedExpr :: "TraversalAllowedExprContext \<Rightarrow> AST" where
  "ast_of_expr (TraversalAllowedExpressionContext x) = ast_of_traversalAllowedExpr x"
| "ast_of_expr (UpAndDownTraversalExpressionContext u x d) =
     UpAndDownTraversal (depth_of u) (ast_of_traversalAllowedExpr x) (depth_of d)"
| "ast_of_expr (UpTraversalExpressionContext u x) =
     UpTraversal (depth_of u) (ast_of_traversalAllowedExpr x)"
| "ast_of_expr (DownTraversalExpressionContext x d) =
     DownTraversal (depth_of d) (ast_of_traversalAllowedExpr x)"
| "ast_of_expr (NotExpressionContext n x) = Not_ast (ast_of_expr x)"
| "ast_of_expr (AndExpressionContext l a r) = And (ast_of_expr l) (ast_of_expr r)"
| "ast_of_expr (OrExpressionContext l a r) = Or (ast_of_expr l) (ast_of_expr r)"
| "ast_of_expr (AllExpressionContext s) = All_ast"
| "ast_of_traversalAllowedExpr (AttributeExpressionContext a) = ast_of_attributeExpr a"
| "ast_of_traversalAllowedExpr (ParenthesizedExpressionContext l x r) =
     Parenthesized (ast_of_expr x)"

text \<open>
  The chain \<^verbatim>\<open>a -> foo -> b\<close> of scenario 2: \<^verbatim>\<open>a\<close> is upstream of \<^verbatim>\<open>foo\<close> and \<^verbatim>\<open>b\<close> is
  downstream of it; every node's \<^verbatim>\<open>name\<close> attribute is its identifier.
\<close>

definition chain_graph :: GraphView where
  "chain_graph =
     \<lparr>allNodeIds = {''a'', ''foo'', ''b''},
      attribute = (\<lambda>n k. if k = ''name'' then n else []),
      upstreamOf = (\<lambda>n. if n = ''foo'' then {''a''} else if n = ''b'' then {''foo''} else {}),
      downstreamOf = (\<lambda>n. if n = ''a'' then {''foo''} else if n = ''foo'' then {''b''} else {})\<rparr>"

section \<open>Properties\<close>

subsection \<open>Evaluation rules\<close>

lemma tok_sel [simp]:
  "kind (tok k s p) = k" "tokenText (tok k s p) = s" "position (tok k s p) = p"
  by (simp_all add: tok_def)

lemma tok_eq_iff [simp]: "tok k s p = tok k' s' p' \<longleftrightarrow> k = k' \<and> s = s' \<and> p = p'"
  by (auto simp: tok_def)

lemma LA1_simps [simp]: "LA1 [] = None" "LA1 (t # ts) = Some (kind t)"
  by (simp_all add: LA1_def)

lemma LT1_simps [simp]: "LT1 [] = None" "LT1 (t # ts) = Some t"
  by (simp_all add: LT1_def)

lemma traversal_loop_Nil: "traversal_loop acc [] = Inl (RecognitionException None)"
  by (simp add: traversal_loop.simps [of acc "[]"] match_def)

lemma traversal_loop_Cons:
  "traversal_loop acc (t # r) =
     (if kind t = PLUS then
        (if LA1 r = Some PLUS then traversal_loop (acc @ [t]) r else Inr (acc @ [t], r))
      else Inl (RecognitionException (Some t)))"
  by (simp add: traversal_loop.simps [of acc "t # r"] match_def adaptivePredict_4_def)

lemma traversal_loop_run:
  "kind t = PLUS \<Longrightarrow>
   traversal_loop acc (t # r) =
     Inr (acc @ t # takeWhile (\<lambda>t. kind t = PLUS) r, dropWhile (\<lambda>t. kind t = PLUS) r)"
proof (induction r arbitrary: acc t)
  case Nil
  then show ?case by (simp add: traversal_loop_Cons LA1_def)
next
  case (Cons a r)
  then show ?case by (simp add: traversal_loop_Cons [of acc t] LA1_def)
qed

lemma traversal_Nil: "traversal [] = Inl (RecognitionException None)"
  by (simp add: traversal_def LA1_def LT1_def)

lemma traversal_Cons:
  "traversal (t # r) =
     (if kind t = STAR then Inr (TraversalContext [t], r)
      else if kind t = PLUS then
        Inr (TraversalContext (t # takeWhile (\<lambda>t. kind t = PLUS) r),
             dropWhile (\<lambda>t. kind t = PLUS) r)
      else Inl (RecognitionException (Some t)))"
  by (simp add: traversal_def LA1_def LT1_def match_def traversal_loop_run
      split: TokenType.splits)

lemma LA1_dropWhile_PLUS: "LA1 (dropWhile (\<lambda>t. kind t = PLUS) r) \<noteq> Some PLUS"
  by (induction r) (auto simp: LA1_def)

lemma attributeExpr_Cons3:
  "attributeExpr (n # c # v # r) =
     (if kind n = NAME \<or> kind n = NAME_SUBSTRING then
        if kind c = COLON then
          if kind v = QUOTED_STRING \<or> kind v = UNQUOTED_STRING then
            Inr (if kind n = NAME then NameExprContext n c (ValueContext v)
                 else NameSubstringExprContext n c (ValueContext v), r)
          else Inl (RecognitionException (Some v))
        else Inl (RecognitionException (Some c))
      else Inl (RecognitionException (Some n)))"
  by (simp add: attributeExpr_def match_def value_rule_def LA1_def LT1_def
      split: TokenType.splits)

lemma attributeExpr_short:
  "attributeExpr [] = Inl (RecognitionException None)"
  "attributeExpr [n] =
     (if kind n = NAME \<or> kind n = NAME_SUBSTRING then Inl (RecognitionException None)
      else Inl (RecognitionException (Some n)))"
  "attributeExpr [n, c] =
     (if kind n = NAME \<or> kind n = NAME_SUBSTRING then
        if kind c = COLON then Inl (RecognitionException None)
        else Inl (RecognitionException (Some c))
      else Inl (RecognitionException (Some n)))"
  by (simp_all add: attributeExpr_def match_def value_rule_def LA1_def LT1_def
      split: TokenType.splits)

text \<open>Unfolding the parser on a concrete token list.\<close>

lemmas parser_eval = start_def expr.simps expr_primary.simps expr_loop.simps
  traversalAllowedExpr.simps adaptivePredict_0.simps traversal_Cons traversal_Nil
  attributeExpr_Cons3 attributeExpr_short match_def matchEOF_def
  adaptivePredict_1_def adaptivePredict_2_def precpred_def

subsection \<open>The rule traversalAllowedExpr\<close>

lemma traversalAllowedExpr_start:
  "traversalAllowedExpr ts = Inr (X, r) \<Longrightarrow>
     LA1 ts = Some NAME \<or> LA1 ts = Some NAME_SUBSTRING \<or> LA1 ts = Some LPAREN"
  by (auto simp: traversalAllowedExpr.simps [of ts] split: option.splits TokenType.splits)

lemma traversalAllowedExpr_other:
  "LA1 ts \<noteq> Some NAME \<Longrightarrow> LA1 ts \<noteq> Some NAME_SUBSTRING \<Longrightarrow> LA1 ts \<noteq> Some LPAREN \<Longrightarrow>
     traversalAllowedExpr ts = Inl (RecognitionException (LT1 ts))"
  by (auto simp: traversalAllowedExpr.simps [of ts] split: option.splits TokenType.splits)

lemma traversalAllowedExpr_attribute:
  "kind n = NAME \<or> kind n = NAME_SUBSTRING \<Longrightarrow>
   traversalAllowedExpr (n # ts) =
     (case attributeExpr (n # ts) of Inl e \<Rightarrow> Inl e
      | Inr (a, r) \<Rightarrow> Inr (AttributeExpressionContext a, r))"
  by (auto simp: traversalAllowedExpr.simps [of "n # ts"])

lemma traversalAllowedExpr_paren:
  "kind l = LPAREN \<Longrightarrow>
   traversalAllowedExpr (l # ts) =
     (case expr 0 ts of Inl e \<Rightarrow> Inl e | Inr (x, r2) \<Rightarrow>
     (case match RPAREN r2 of Inl e \<Rightarrow> Inl e | Inr (rp, r3) \<Rightarrow>
        Inr (ParenthesizedExpressionContext l x rp, r3)))"
  by (simp add: traversalAllowedExpr.simps [of "l # ts"] match_def)

lemma tae_operand_nonempty:
  assumes "tae_operand xs X"
  shows "xs \<noteq> []" and "LA1 (xs @ r) = LA1 xs"
    and "LA1 xs = Some NAME \<or> LA1 xs = Some NAME_SUBSTRING \<or> LA1 xs = Some LPAREN"
proof -
  from assms have "traversalAllowedExpr (xs @ []) = Inr (X, [])"
    unfolding tae_operand_def by blast
  then have s: "LA1 xs = Some NAME \<or> LA1 xs = Some NAME_SUBSTRING \<or> LA1 xs = Some LPAREN"
    using traversalAllowedExpr_start [of xs X "[]"] by simp
  then show "xs \<noteq> []" by (auto simp: LA1_def)
  then show "LA1 (xs @ r) = LA1 xs" by (cases xs) (simp_all add: LA1_def)
  show "LA1 xs = Some NAME \<or> LA1 xs = Some NAME_SUBSTRING \<or> LA1 xs = Some LPAREN" by (rule s)
qed

subsection \<open>Traversal qualifiers\<close>

lemma traversal_run_parse:
  assumes "traversal_run u" and "kind (hd u) = PLUS \<longrightarrow> LA1 r \<noteq> Some PLUS"
  shows "traversal (u @ r) = Inr (TraversalContext u, r)"
proof -
  from assms(1) consider s where "u = [s]" "kind s = STAR"
    | "u \<noteq> []" "list_all (\<lambda>t. kind t = PLUS) u"
    unfolding traversal_run_def by blast
  then show ?thesis
  proof cases
    case 1
    then show ?thesis by (simp add: traversal_Cons)
  next
    case 2
    then obtain t u' where u: "u = t # u'" by (cases u) auto
    with 2 have kt: "kind t = PLUS" and all: "list_all (\<lambda>t. kind t = PLUS) u'" by simp_all
    from assms(2) u kt have nr: "LA1 r \<noteq> Some PLUS" by simp
    have tw: "takeWhile (\<lambda>t. kind t = PLUS) (u' @ r) = u'"
      using all nr
      by (cases r) (auto simp: list_all_iff takeWhile_append2 LA1_def)
    have dw: "dropWhile (\<lambda>t. kind t = PLUS) (u' @ r) = r"
      using all nr
      by (cases r) (auto simp: list_all_iff dropWhile_append2 LA1_def)
    show ?thesis using u kt tw dw by (simp add: traversal_Cons)
  qed
qed

lemma traversal_run_LA1:
  assumes "traversal_run u"
  shows "u \<noteq> []" and "LA1 (u @ r) = LA1 u" and "LA1 u = Some STAR \<or> LA1 u = Some PLUS"
  using assms unfolding traversal_run_def by (cases u; auto simp: LA1_def)+

lemma traversal_run_accessors:
  assumes "traversal_run u"
  shows "(kind (hd u) = STAR \<longrightarrow>
            TraversalContext_STAR (TraversalContext u) = Some (hd u)
            \<and> TraversalContext_PLUS (TraversalContext u) = [])
       \<and> (kind (hd u) = PLUS \<longrightarrow>
            TraversalContext_STAR (TraversalContext u) = None
            \<and> TraversalContext_PLUS (TraversalContext u) = u)"
  using assms
  by (auto simp: traversal_run_def TraversalContext_STAR_def TraversalContext_PLUS_def
      list_all_iff find_None_iff filter_id_conv)

lemma traversal_ok_iff:
  "(\<exists>res. traversal ts = Inr res) \<longleftrightarrow> LA1 ts = Some STAR \<or> LA1 ts = Some PLUS"
  by (cases ts) (auto simp: traversal_Nil traversal_Cons)

lemma traversal_Inl_LA1:
  "traversal ts = Inl e \<Longrightarrow> LA1 ts \<noteq> Some STAR \<and> LA1 ts \<noteq> Some PLUS"
  using traversal_ok_iff [of ts] by auto

lemma traversal_Inr_LA1:
  "traversal ts = Inr res \<Longrightarrow> LA1 ts = Some STAR \<or> LA1 ts = Some PLUS"
  using traversal_ok_iff [of ts] by auto

lemma traversalAllowedExpr_Inl_of_traversal:
  "traversal ts = Inr res \<Longrightarrow> \<exists>e. traversalAllowedExpr ts = Inl e"
  by (auto dest!: traversal_Inr_LA1 simp: traversalAllowedExpr_other)

subsection \<open>Decision 0 and the primary alternatives\<close>

lemma adaptivePredict_0_tae:
  assumes "tae_operand xs X"
  shows "adaptivePredict_0 (xs @ r) =
           (if LA1 r = Some STAR \<or> LA1 r = Some PLUS then Inr 4 else Inr 1)"
  using tae_operand_nonempty(2,3) [OF assms] assms
  by (auto simp: adaptivePredict_0.simps [of "xs @ r"] tae_operand_def)

lemma adaptivePredict_0_run_tae:
  assumes "traversal_run u" "tae_operand xs X"
  shows "adaptivePredict_0 (u @ xs @ r) =
           (if LA1 r = Some STAR \<or> LA1 r = Some PLUS then Inr 2 else Inr 3)"
proof -
  have la: "LA1 (xs @ r) = Some NAME \<or> LA1 (xs @ r) = Some NAME_SUBSTRING
              \<or> LA1 (xs @ r) = Some LPAREN"
    using tae_operand_nonempty(2,3) [OF assms(2)] by simp
  then have "kind (hd u) = PLUS \<longrightarrow> LA1 (xs @ r) \<noteq> Some PLUS" by auto
  then have tr: "traversal (u @ xs @ r) = Inr (TraversalContext u, xs @ r)"
    by (rule traversal_run_parse [OF assms(1)])
  have tae: "traversalAllowedExpr (xs @ r) = Inr (X, r)"
    using assms(2) by (simp add: tae_operand_def)
  show ?thesis
    using traversal_run_LA1(2,3) [OF assms(1)] tr tae la
    by (auto simp: adaptivePredict_0.simps [of "u @ xs @ r"])
qed

lemma expr_primary_untraversed:
  assumes "tae_operand xs X" "LA1 r \<noteq> Some STAR" "LA1 r \<noteq> Some PLUS"
  shows "expr_primary (xs @ r) = Inr (TraversalAllowedExpressionContext X, r)"
  using assms
  by (simp add: expr_primary.simps [of "xs @ r"] adaptivePredict_0_tae tae_operand_def)

lemma expr_primary_down:
  assumes "tae_operand xs X" "traversal_run d" "kind (hd d) = PLUS \<longrightarrow> LA1 r \<noteq> Some PLUS"
  shows "expr_primary (xs @ d @ r) = Inr (DownTraversalExpressionContext X (TraversalContext d), r)"
proof -
  have "LA1 (d @ r) = Some STAR \<or> LA1 (d @ r) = Some PLUS"
    using traversal_run_LA1(2,3) [OF assms(2)] by simp
  then have "adaptivePredict_0 (xs @ d @ r) = Inr 4"
    by (simp add: adaptivePredict_0_tae [OF assms(1)])
  moreover have "traversalAllowedExpr (xs @ d @ r) = Inr (X, d @ r)"
    using assms(1) by (simp add: tae_operand_def)
  moreover have "traversal (d @ r) = Inr (TraversalContext d, r)"
    by (rule traversal_run_parse [OF assms(2,3)])
  ultimately show ?thesis by (simp add: expr_primary.simps [of "xs @ d @ r"])
qed

lemma expr_primary_up:
  assumes "traversal_run u" "tae_operand xs X" "LA1 r \<noteq> Some STAR" "LA1 r \<noteq> Some PLUS"
  shows "expr_primary (u @ xs @ r) = Inr (UpTraversalExpressionContext (TraversalContext u) X, r)"
proof -
  have "adaptivePredict_0 (u @ xs @ r) = Inr 3"
    using assms(3,4) by (simp add: adaptivePredict_0_run_tae [OF assms(1,2)])
  moreover have la: "LA1 (xs @ r) = Some NAME \<or> LA1 (xs @ r) = Some NAME_SUBSTRING
              \<or> LA1 (xs @ r) = Some LPAREN"
    using tae_operand_nonempty(2,3) [OF assms(2)] by simp
  then have "kind (hd u) = PLUS \<longrightarrow> LA1 (xs @ r) \<noteq> Some PLUS" by auto
  then have "traversal (u @ xs @ r) = Inr (TraversalContext u, xs @ r)"
    by (rule traversal_run_parse [OF assms(1)])
  moreover have "traversalAllowedExpr (xs @ r) = Inr (X, r)"
    using assms(2) by (simp add: tae_operand_def)
  ultimately show ?thesis by (simp add: expr_primary.simps [of "u @ xs @ r"])
qed

lemma expr_primary_up_and_down:
  assumes "traversal_run u" "tae_operand xs X" "traversal_run d"
    "kind (hd d) = PLUS \<longrightarrow> LA1 r \<noteq> Some PLUS"
  shows "expr_primary (u @ xs @ d @ r) =
     Inr (UpAndDownTraversalExpressionContext (TraversalContext u) X (TraversalContext d), r)"
proof -
  have "LA1 (d @ r) = Some STAR \<or> LA1 (d @ r) = Some PLUS"
    using traversal_run_LA1(2,3) [OF assms(3)] by simp
  then have "adaptivePredict_0 (u @ xs @ d @ r) = Inr 2"
    by (simp add: adaptivePredict_0_run_tae [OF assms(1,2)])
  moreover have la: "LA1 (xs @ d @ r) = Some NAME \<or> LA1 (xs @ d @ r) = Some NAME_SUBSTRING
              \<or> LA1 (xs @ d @ r) = Some LPAREN"
    using tae_operand_nonempty(2,3) [OF assms(2)] by simp
  then have "kind (hd u) = PLUS \<longrightarrow> LA1 (xs @ d @ r) \<noteq> Some PLUS" by auto
  then have "traversal (u @ xs @ d @ r) = Inr (TraversalContext u, xs @ d @ r)"
    by (rule traversal_run_parse [OF assms(1)])
  moreover have "traversalAllowedExpr (xs @ d @ r) = Inr (X, d @ r)"
    using assms(2) by (simp add: tae_operand_def)
  moreover have "traversal (d @ r) = Inr (TraversalContext d, r)"
    by (rule traversal_run_parse [OF assms(3,4)])
  ultimately show ?thesis by (simp add: expr_primary.simps [of "u @ xs @ d @ r"])
qed

lemma expr_primary_not:
  "kind n = NOT \<Longrightarrow>
   expr_primary (n # ts) =
     (case expr 4 ts of Inl e \<Rightarrow> Inl e | Inr (x, r) \<Rightarrow> Inr (NotExpressionContext n x, r))"
  by (simp add: expr_primary.simps [of "n # ts"] adaptivePredict_0.simps [of "n # ts"] match_def)

lemma expr_primary_all:
  "kind s = STAR \<Longrightarrow> LA1 r \<noteq> Some NAME \<Longrightarrow> LA1 r \<noteq> Some NAME_SUBSTRING \<Longrightarrow>
   LA1 r \<noteq> Some LPAREN \<Longrightarrow>
   expr_primary (s # r) = Inr (AllExpressionContext s, r)"
  by (simp add: expr_primary.simps [of "s # r"] adaptivePredict_0.simps [of "s # r"] match_def
      traversal_Cons)

subsection \<open>The operator loop\<close>

lemma expr_loop_exit:
  "\<not> (LA1 ts = Some AND \<and> p \<le> 3) \<Longrightarrow> \<not> (LA1 ts = Some OR \<and> p \<le> 2) \<Longrightarrow>
   expr_loop p ctx ts = Inr (ctx, ts)"
  by (auto simp: expr_loop.simps [of p ctx ts] adaptivePredict_2_def precpred_def)

lemma expr_loop_and:
  "kind a = AND \<Longrightarrow> p \<le> 3 \<Longrightarrow>
   expr_loop p ctx (a # ts) =
     (case expr 4 ts of Inl e \<Rightarrow> Inl e
      | Inr (rhs, r2) \<Rightarrow> expr_loop p (AndExpressionContext ctx a rhs) r2)"
  by (simp add: expr_loop.simps [of p ctx "a # ts"] adaptivePredict_2_def adaptivePredict_1_def
      precpred_def match_def)

lemma expr_loop_or:
  "kind a = OR \<Longrightarrow> p \<le> 2 \<Longrightarrow>
   expr_loop p ctx (a # ts) =
     (case expr 3 ts of Inl e \<Rightarrow> Inl e
      | Inr (rhs, r2) \<Rightarrow> expr_loop p (OrExpressionContext ctx a rhs) r2)"
  by (simp add: expr_loop.simps [of p ctx "a # ts"] adaptivePredict_2_def adaptivePredict_1_def
      precpred_def match_def)

lemma follows_expr_simps [simp]:
  "follows_expr []"
  "follows_expr (t # ts) \<longleftrightarrow> kind t = AND \<or> kind t = OR \<or> kind t = RPAREN"
  by (simp_all add: follows_expr_def)

lemma expr_operand:
  "operand xs A \<Longrightarrow> follows_expr r \<Longrightarrow> expr p (xs @ r) = expr_loop p A r"
  by (simp add: expr.simps [of p "xs @ r"] operand_def)

lemma expr_operand_end: "operand xs A \<Longrightarrow> expr p xs = expr_loop p A []"
  using expr_operand [of xs A "[]" p] by simp

subsection \<open>What is an operand\<close>

lemma tae_operand_attribute:
  assumes "kind n = NAME \<or> kind n = NAME_SUBSTRING" "kind c = COLON"
    "kind v = QUOTED_STRING \<or> kind v = UNQUOTED_STRING"
  shows "tae_operand [n, c, v]
     (AttributeExpressionContext
        (if kind n = NAME then NameExprContext n c (ValueContext v)
         else NameSubstringExprContext n c (ValueContext v)))"
  using assms
  by (auto simp: tae_operand_def traversalAllowedExpr_attribute attributeExpr_Cons3)

lemma tae_operand_parenthesized:
  assumes "kind l = LPAREN" "kind rp = RPAREN" "\<And>r. expr 0 (xs @ rp # r) = Inr (E, rp # r)"
  shows "tae_operand (l # xs @ [rp]) (ParenthesizedExpressionContext l E rp)"
  using assms
  by (simp add: tae_operand_def traversalAllowedExpr_paren match_def)

lemma follows_expr_not_traversal:
  "follows_expr r \<Longrightarrow> LA1 r \<noteq> Some STAR \<and> LA1 r \<noteq> Some PLUS"
  by (auto simp: follows_expr_def)

lemma follows_expr_not_tae:
  "follows_expr r \<Longrightarrow>
     LA1 r \<noteq> Some NAME \<and> LA1 r \<noteq> Some NAME_SUBSTRING \<and> LA1 r \<noteq> Some LPAREN"
  by (auto simp: follows_expr_def)

lemma operand_untraversed:
  "tae_operand xs X \<Longrightarrow> operand xs (TraversalAllowedExpressionContext X)"
  by (simp add: operand_def expr_primary_untraversed follows_expr_not_traversal)

lemma operand_down:
  "tae_operand xs X \<Longrightarrow> traversal_run d \<Longrightarrow>
     operand (xs @ d) (DownTraversalExpressionContext X (TraversalContext d))"
  using expr_primary_down [of xs X d]
  by (simp add: operand_def follows_expr_not_traversal)

lemma operand_up:
  "traversal_run u \<Longrightarrow> tae_operand xs X \<Longrightarrow>
     operand (u @ xs) (UpTraversalExpressionContext (TraversalContext u) X)"
  using expr_primary_up [of u xs X]
  by (simp add: operand_def follows_expr_not_traversal)

lemma operand_up_and_down:
  "traversal_run u \<Longrightarrow> tae_operand xs X \<Longrightarrow> traversal_run d \<Longrightarrow>
     operand (u @ xs @ d)
       (UpAndDownTraversalExpressionContext (TraversalContext u) X (TraversalContext d))"
  using expr_primary_up_and_down [of u xs X d]
  by (simp add: operand_def follows_expr_not_traversal)

lemma operand_all: "kind s = STAR \<Longrightarrow> operand [s] (AllExpressionContext s)"
  by (simp add: operand_def expr_primary_all follows_expr_not_tae)

lemma operand_not:
  assumes "kind n = NOT" "operand xs A"
  shows "operand (n # xs) (NotExpressionContext n A)"
proof -
  have "expr_primary (n # xs @ r) = Inr (NotExpressionContext n A, r)" if "follows_expr r" for r
  proof -
    have "expr 4 (xs @ r) = expr_loop 4 A r" using assms(2) that by (rule expr_operand)
    also have "\<dots> = Inr (A, r)" by (simp add: expr_loop_exit)
    finally show ?thesis using assms(1) by (simp add: expr_primary_not)
  qed
  then show ?thesis by (simp add: operand_def)
qed

subsection \<open>A tree spans the tokens that were read\<close>

lemma match_tokens:
  "(case match k ts of Inl e \<Rightarrow> True | Inr (t, r) \<Rightarrow> ts = t # r \<and> kind t = k)"
  by (auto simp: match_def split: list.splits)

lemma traversal_tokens:
  "(case traversal ts of Inl e \<Rightarrow> True | Inr (c, r) \<Rightarrow> ts = children c @ r)"
  by (cases ts) (auto simp: traversal_Nil traversal_Cons)

lemma attributeExpr_tokens:
  "(case attributeExpr ts of Inl e \<Rightarrow> True | Inr (a, r) \<Rightarrow> ts = tokens_of_attributeExpr a @ r)"
proof -
  consider "ts = []" | n where "ts = [n]" | n c where "ts = [n, c]"
    | n c v r' where "ts = n # c # v # r'"
    by (cases ts rule: list.exhaust [case_product list.exhaust [case_product list.exhaust]])
       (metis list.exhaust)+
  then show ?thesis
    by cases (simp_all add: attributeExpr_short attributeExpr_Cons3)
qed

lemma parser_tokens:
  "(case expr p ts of Inl e \<Rightarrow> True | Inr (c, r) \<Rightarrow> ts = tokens_of_expr c @ r)"
  "(case expr_primary ts2 of Inl e \<Rightarrow> True | Inr (c, r) \<Rightarrow> ts2 = tokens_of_expr c @ r)"
  "(case expr_loop p3 ctx3 ts3 of Inl e \<Rightarrow> True
    | Inr (c, r) \<Rightarrow> tokens_of_expr ctx3 @ ts3 = tokens_of_expr c @ r)"
  "(case traversalAllowedExpr ts4 of Inl e \<Rightarrow> True
    | Inr (c, r) \<Rightarrow> ts4 = tokens_of_traversalAllowedExpr c @ r)"
  "(ts5 :: Token list) = ts5"
proof (induct p ts and ts2 and p3 ctx3 ts3 and ts4 and ts5
    rule: expr_expr_primary_expr_loop_traversalAllowedExpr_adaptivePredict_0.induct)
  case (1 p ts)
  show ?case
  proof (cases "expr_primary ts")
    case (Inl e)
    then show ?thesis by (simp add: expr.simps [of p ts])
  next
    case (Inr b)
    obtain ctx r where b: "b = (ctx, r)" by (cases b)
    have l1: "ts = tokens_of_expr ctx @ r" using "1.hyps"(1) Inr b by simp
    have ih: "case expr_loop p ctx r of Inl e \<Rightarrow> True
          | Inr (c, r') \<Rightarrow> tokens_of_expr ctx @ r = tokens_of_expr c @ r'"
      using "1.hyps"(2) [OF Inr b [symmetric]] .
    have "expr p ts = expr_loop p ctx r" using Inr b by (simp add: expr.simps [of p ts])
    then show ?thesis using ih unfolding l1 [symmetric] by simp
  qed
next
  case (2 ts)
  show ?case
  proof (cases "adaptivePredict_0 ts")
    case (Inl e)
    then show ?thesis by (simp add: expr_primary.simps [of ts])
  next
    case (Inr alt)
    note ap = Inr
    consider "alt = 1" | "alt = 2" | "alt = 3" | "alt = 4" | "alt = 5"
      | "alt \<noteq> 1" "alt \<noteq> 2" "alt \<noteq> 3" "alt \<noteq> 4" "alt \<noteq> 5" by blast
    then show ?thesis
    proof cases
      case 1
      have ih: "case traversalAllowedExpr ts of Inl e \<Rightarrow> True
                | Inr (c, r) \<Rightarrow> ts = tokens_of_traversalAllowedExpr c @ r"
        using "2.hyps"(2) [OF ap 1] .
      have "expr_primary ts =
          (case traversalAllowedExpr ts of Inl e \<Rightarrow> Inl e
           | Inr (x, r) \<Rightarrow> Inr (TraversalAllowedExpressionContext x, r))"
        using ap 1 by (simp add: expr_primary.simps [of ts])
      then show ?thesis using ih by (cases "traversalAllowedExpr ts") auto
    next
      case 2
      show ?thesis
      proof (cases "traversal ts")
        case (Inl e)
        then show ?thesis using ap 2 by (simp add: expr_primary.simps [of ts])
      next
        case (Inr b)
        obtain u r1 where b: "b = (u, r1)" by (cases b)
        have l1: "ts = children u @ r1" using traversal_tokens [of ts] Inr b by simp
        have ih: "case traversalAllowedExpr r1 of Inl e \<Rightarrow> True
                  | Inr (c, r) \<Rightarrow> r1 = tokens_of_traversalAllowedExpr c @ r"
          using "2.hyps"(3) [OF ap _ 2 Inr b [symmetric]] 2 by simp
        show ?thesis
        proof (cases "traversalAllowedExpr r1")
          case (Inl e)
          then show ?thesis using ap 2 Inr b by (simp add: expr_primary.simps [of ts])
        next
          case (Inr b2)
          obtain x r2 where b2: "b2 = (x, r2)" by (cases b2)
          have l2: "r1 = tokens_of_traversalAllowedExpr x @ r2" using ih Inr b2 by simp
          have e: "expr_primary ts =
              (case traversal r2 of Inl e \<Rightarrow> Inl e | Inr (d, r3) \<Rightarrow>
                 Inr (UpAndDownTraversalExpressionContext u x d, r3))"
            using ap 2 \<open>traversal ts = Inr b\<close> b Inr b2
            by (simp add: expr_primary.simps [of ts])
          show ?thesis
          proof (cases "traversal r2")
            case (Inl e3)
            then show ?thesis by (simp add: e)
          next
            case (Inr b3)
            obtain d r3 where b3: "b3 = (d, r3)" by (cases b3)
            have l3: "r2 = children d @ r3" using traversal_tokens [of r2] Inr b3 by simp
            have "expr_primary ts = Inr (UpAndDownTraversalExpressionContext u x d, r3)"
              using e Inr b3 by simp
            moreover have "ts = children u @ tokens_of_traversalAllowedExpr x @ children d @ r3"
              using l1 l2 l3 by simp
            ultimately show ?thesis by simp
          qed
        qed
      qed
    next
      case 3
      show ?thesis
      proof (cases "traversal ts")
        case (Inl e)
        then show ?thesis using ap 3 by (simp add: expr_primary.simps [of ts])
      next
        case (Inr b)
        obtain u r1 where b: "b = (u, r1)" by (cases b)
        have l1: "ts = children u @ r1" using traversal_tokens [of ts] Inr b by simp
        have ih: "case traversalAllowedExpr r1 of Inl e \<Rightarrow> True
                  | Inr (c, r) \<Rightarrow> r1 = tokens_of_traversalAllowedExpr c @ r"
          using "2.hyps"(4) [OF ap _ _ 3 Inr b [symmetric]] 3 by simp
        have e: "expr_primary ts =
            (case traversalAllowedExpr r1 of Inl e \<Rightarrow> Inl e | Inr (x, r2) \<Rightarrow>
               Inr (UpTraversalExpressionContext u x, r2))"
          using ap 3 Inr b by (simp add: expr_primary.simps [of ts])
        show ?thesis
        proof (cases "traversalAllowedExpr r1")
          case (Inl e2)
          then show ?thesis by (simp add: e)
        next
          case (Inr b2)
          obtain x r2 where b2: "b2 = (x, r2)" by (cases b2)
          have l2: "r1 = tokens_of_traversalAllowedExpr x @ r2" using ih Inr b2 by simp
          have "expr_primary ts = Inr (UpTraversalExpressionContext u x, r2)"
            using e Inr b2 by simp
          moreover have "ts = children u @ tokens_of_traversalAllowedExpr x @ r2"
            using l1 l2 by simp
          ultimately show ?thesis by simp
        qed
      qed
    next
      case 4
      have ih: "case traversalAllowedExpr ts of Inl e \<Rightarrow> True
                | Inr (c, r) \<Rightarrow> ts = tokens_of_traversalAllowedExpr c @ r"
        using "2.hyps"(5) [OF ap _ _ _ 4] 4 by simp
      show ?thesis
      proof (cases "traversalAllowedExpr ts")
        case (Inl e)
        then show ?thesis using ap 4 by (simp add: expr_primary.simps [of ts])
      next
        case (Inr b)
        obtain x r1 where b: "b = (x, r1)" by (cases b)
        have l1: "ts = tokens_of_traversalAllowedExpr x @ r1" using ih Inr b by simp
        have e: "expr_primary ts =
            (case traversal r1 of Inl e \<Rightarrow> Inl e | Inr (d, r2) \<Rightarrow>
               Inr (DownTraversalExpressionContext x d, r2))"
          using ap 4 Inr b by (simp add: expr_primary.simps [of ts])
        show ?thesis
        proof (cases "traversal r1")
          case (Inl e2)
          then show ?thesis by (simp add: e)
        next
          case (Inr b2)
          obtain d r2 where b2: "b2 = (d, r2)" by (cases b2)
          have l2: "r1 = children d @ r2" using traversal_tokens [of r1] Inr b2 by simp
          have "expr_primary ts = Inr (DownTraversalExpressionContext x d, r2)"
            using e Inr b2 by simp
          moreover have "ts = tokens_of_traversalAllowedExpr x @ children d @ r2"
            using l1 l2 by simp
          ultimately show ?thesis by simp
        qed
      qed
    next
      case 5
      show ?thesis
      proof (cases "match NOT ts")
        case (Inl e)
        then show ?thesis using ap 5 by (simp add: expr_primary.simps [of ts])
      next
        case (Inr b)
        obtain n r1 where b: "b = (n, r1)" by (cases b)
        have l1: "ts = n # r1" using match_tokens [where k=NOT and ts=ts] Inr b by simp
        have ih: "case expr 4 r1 of Inl e \<Rightarrow> True | Inr (c, r) \<Rightarrow> r1 = tokens_of_expr c @ r"
          using "2.hyps"(6) [OF ap _ _ _ _ 5 Inr b [symmetric]] 5 by simp
        have e: "expr_primary ts =
            (case expr 4 r1 of Inl e \<Rightarrow> Inl e | Inr (x, r2) \<Rightarrow>
               Inr (NotExpressionContext n x, r2))"
          using ap 5 Inr b by (simp add: expr_primary.simps [of ts])
        show ?thesis
        proof (cases "expr 4 r1")
          case (Inl e2)
          then show ?thesis by (simp add: e)
        next
          case (Inr b2)
          obtain x r2 where b2: "b2 = (x, r2)" by (cases b2)
          have l2: "r1 = tokens_of_expr x @ r2" using ih Inr b2 by simp
          have "expr_primary ts = Inr (NotExpressionContext n x, r2)"
            using e Inr b2 by simp
          moreover have "ts = n # tokens_of_expr x @ r2" using l1 l2 by simp
          ultimately show ?thesis by simp
        qed
      qed
    next
      case 6
      then have e: "expr_primary ts =
          (case match STAR ts of Inl e \<Rightarrow> Inl e | Inr (s, r) \<Rightarrow>
             Inr (AllExpressionContext s, r))"
        using ap by (simp add: expr_primary.simps [of ts])
      show ?thesis
      proof (cases "match STAR ts")
        case (Inl e2)
        then show ?thesis by (simp add: e)
      next
        case (Inr b)
        obtain s r where b: "b = (s, r)" by (cases b)
        have l1: "ts = s # r" using match_tokens [where k=STAR and ts=ts] Inr b by simp
        have "expr_primary ts = Inr (AllExpressionContext s, r)" using e Inr b by simp
        then show ?thesis using l1 by simp
      qed
    qed
  qed
next
  case (3 p ctx ts)
  show ?case
  proof (cases "adaptivePredict_2 p ts \<noteq> 2")
    case False
    then show ?thesis by (simp add: expr_loop.simps [of p ctx ts])
  next
    case True
    note enter = True
    show ?thesis
    proof (cases "adaptivePredict_1 p ts = 1")
      case True
      note a1 = True
      show ?thesis
      proof (cases "precpred p 3")
        case False
        then show ?thesis using enter a1 by (simp add: expr_loop.simps [of p ctx ts])
      next
        case True
        note pp = True
        show ?thesis
        proof (cases "match AND ts")
          case (Inl e)
          then show ?thesis using enter a1 pp by (simp add: expr_loop.simps [of p ctx ts])
        next
          case (Inr b)
          obtain a r1 where b: "b = (a, r1)" by (cases b)
          have l1: "ts = a # r1" using match_tokens [where k=AND and ts=ts] Inr b by simp
          have ih1: "case expr 4 r1 of Inl e \<Rightarrow> True | Inr (c, r) \<Rightarrow> r1 = tokens_of_expr c @ r"
            using "3.hyps"(1) [OF enter a1 _ Inr b [symmetric]] pp by simp
          have e: "expr_loop p ctx ts =
              (case expr 4 r1 of Inl e \<Rightarrow> Inl e | Inr (rhs, r2) \<Rightarrow>
                 expr_loop p (AndExpressionContext ctx a rhs) r2)"
            using enter a1 pp Inr b by (simp add: expr_loop.simps [of p ctx ts])
          show ?thesis
          proof (cases "expr 4 r1")
            case (Inl e2)
            then show ?thesis by (simp add: e)
          next
            case (Inr b2)
            obtain rhs r2 where b2: "b2 = (rhs, r2)" by (cases b2)
            have l2: "r1 = tokens_of_expr rhs @ r2" using ih1 Inr b2 by simp
            have ih2: "case expr_loop p (AndExpressionContext ctx a rhs) r2 of
                         Inl e \<Rightarrow> True
                       | Inr (c, r) \<Rightarrow>
                           tokens_of_expr (AndExpressionContext ctx a rhs) @ r2 =
                           tokens_of_expr c @ r"
              using "3.hyps"(2) [OF enter a1 _ \<open>match AND ts = Inr b\<close> b [symmetric]
                  Inr b2 [symmetric]] pp
              by simp
            have e2: "expr_loop p ctx ts = expr_loop p (AndExpressionContext ctx a rhs) r2"
              using e Inr b2 by simp
            have t: "tokens_of_expr ctx @ ts =
                tokens_of_expr (AndExpressionContext ctx a rhs) @ r2"
              using l1 l2 by simp
            show ?thesis unfolding e2 t using ih2 .
          qed
        qed
      qed
    next
      case False
      note a1 = False
      show ?thesis
      proof (cases "precpred p 2")
        case False
        then show ?thesis using enter a1 by (simp add: expr_loop.simps [of p ctx ts])
      next
        case True
        note pp = True
        show ?thesis
        proof (cases "match OR ts")
          case (Inl e)
          then show ?thesis using enter a1 pp by (simp add: expr_loop.simps [of p ctx ts])
        next
          case (Inr b)
          obtain a r1 where b: "b = (a, r1)" by (cases b)
          have l1: "ts = a # r1" using match_tokens [where k=OR and ts=ts] Inr b by simp
          have ih1: "case expr 3 r1 of Inl e \<Rightarrow> True | Inr (c, r) \<Rightarrow> r1 = tokens_of_expr c @ r"
            using "3.hyps"(3) [OF enter a1 _ Inr b [symmetric]] pp by simp
          have e: "expr_loop p ctx ts =
              (case expr 3 r1 of Inl e \<Rightarrow> Inl e | Inr (rhs, r2) \<Rightarrow>
                 expr_loop p (OrExpressionContext ctx a rhs) r2)"
            using enter a1 pp Inr b by (simp add: expr_loop.simps [of p ctx ts])
          show ?thesis
          proof (cases "expr 3 r1")
            case (Inl e2)
            then show ?thesis by (simp add: e)
          next
            case (Inr b2)
            obtain rhs r2 where b2: "b2 = (rhs, r2)" by (cases b2)
            have l2: "r1 = tokens_of_expr rhs @ r2" using ih1 Inr b2 by simp
            have ih2: "case expr_loop p (OrExpressionContext ctx a rhs) r2 of
                         Inl e \<Rightarrow> True
                       | Inr (c, r) \<Rightarrow>
                           tokens_of_expr (OrExpressionContext ctx a rhs) @ r2 =
                           tokens_of_expr c @ r"
              using "3.hyps"(4) [OF enter a1 _ \<open>match OR ts = Inr b\<close> b [symmetric]
                  Inr b2 [symmetric]] pp
              by simp
            have e2: "expr_loop p ctx ts = expr_loop p (OrExpressionContext ctx a rhs) r2"
              using e Inr b2 by simp
            have t: "tokens_of_expr ctx @ ts =
                tokens_of_expr (OrExpressionContext ctx a rhs) @ r2"
              using l1 l2 by simp
            show ?thesis unfolding e2 t using ih2 .
          qed
        qed
      qed
    qed
  qed
next
  case (4 ts)
  show ?case
  proof (cases "LA1 ts = Some LPAREN")
    case False
    have "traversalAllowedExpr ts =
        (case attributeExpr ts of Inl e \<Rightarrow> Inl e
         | Inr (a, r) \<Rightarrow> Inr (AttributeExpressionContext a, r))
        \<or> (\<exists>e. traversalAllowedExpr ts = Inl e)"
      using False
      by (auto simp: traversalAllowedExpr.simps [of ts] split: option.splits TokenType.splits)
    then show ?thesis
      using attributeExpr_tokens [of ts]
      by (cases "attributeExpr ts") auto
  next
    case True
    show ?thesis
    proof (cases "match LPAREN ts")
      case (Inl e)
      then show ?thesis using True by (simp add: traversalAllowedExpr.simps [of ts])
    next
      case (Inr b)
      obtain l r1 where b: "b = (l, r1)" by (cases b)
      have l1: "ts = l # r1" using match_tokens [where k=LPAREN and ts=ts] Inr b by simp
      have ih: "case expr 0 r1 of Inl e \<Rightarrow> True | Inr (c, r) \<Rightarrow> r1 = tokens_of_expr c @ r"
        using "4.hyps" [OF True _ Inr b [symmetric]] by simp
      have e: "traversalAllowedExpr ts =
          (case expr 0 r1 of Inl e \<Rightarrow> Inl e | Inr (x, r2) \<Rightarrow>
          (case match RPAREN r2 of Inl e \<Rightarrow> Inl e | Inr (rp, r3) \<Rightarrow>
             Inr (ParenthesizedExpressionContext l x rp, r3)))"
        using True Inr b by (simp add: traversalAllowedExpr.simps [of ts])
      show ?thesis
      proof (cases "expr 0 r1")
        case (Inl e2)
        then show ?thesis by (simp add: e)
      next
        case (Inr b2)
        obtain x r2 where b2: "b2 = (x, r2)" by (cases b2)
        have l2: "r1 = tokens_of_expr x @ r2" using ih Inr b2 by simp
        show ?thesis
        proof (cases "match RPAREN r2")
          case (Inl e3)
          then show ?thesis using Inr b2 by (simp add: e)
        next
          case (Inr b3)
          obtain rp r3 where b3: "b3 = (rp, r3)" by (cases b3)
          have l3: "r2 = rp # r3" using match_tokens [where k=RPAREN and ts=r2] Inr b3 by simp
          have "traversalAllowedExpr ts = Inr (ParenthesizedExpressionContext l x rp, r3)"
            using e \<open>expr 0 r1 = Inr b2\<close> b2 Inr b3 by simp
          moreover have "ts = l # tokens_of_expr x @ rp # r3" using l1 l2 l3 by simp
          ultimately show ?thesis by simp
        qed
      qed
    qed
  qed
next
  case (5 ts)
  show ?case by simp
qed

lemma expr_tokens: "expr p ts = Inr (c, r) \<Longrightarrow> ts = tokens_of_expr c @ r"
  using parser_tokens(1) [where p=p and ts=ts] by simp

subsection \<open>A traversal qualifier before a token that starts no traversalAllowedExpr\<close>

lemma start_STAR_other:
  assumes "kind s = STAR"
    and "LA1 ts \<noteq> Some NAME" "LA1 ts \<noteq> Some NAME_SUBSTRING" "LA1 ts \<noteq> Some LPAREN"
    and "LA1 ts \<noteq> Some AND" "LA1 ts \<noteq> Some OR" "ts \<noteq> []"
  shows "start (s # ts) = Inl (RecognitionException (LT1 ts))"
proof -
  have "expr 0 (s # ts) = Inr (AllExpressionContext s, ts)"
    using assms by (simp add: expr.simps [of 0 "s # ts"] expr_primary_all expr_loop_exit)
  then show ?thesis using assms(7) by (cases ts) (simp_all add: start_def matchEOF_def)
qed

lemma start_PLUS_other:
  assumes "u \<noteq> []" "list_all (\<lambda>t. kind t = PLUS) u"
    and "LA1 ts \<noteq> Some NAME" "LA1 ts \<noteq> Some NAME_SUBSTRING" "LA1 ts \<noteq> Some LPAREN"
    and "LA1 ts \<noteq> Some PLUS"
  shows "start (u @ ts) = Inl (RecognitionException (LT1 ts))"
proof -
  have run: "traversal_run u" using assms(1,2) by (simp add: traversal_run_def)
  have tr: "traversal (u @ ts) = Inr (TraversalContext u, ts)"
    using assms(6) by (intro traversal_run_parse [OF run]) simp
  have la: "LA1 (u @ ts) = Some PLUS"
    using assms(1,2) by (cases u) simp_all
  have "adaptivePredict_0 (u @ ts) = Inl (RecognitionException (LT1 ts))"
    using la tr assms(3-5)
    by (simp add: adaptivePredict_0.simps [of "u @ ts"] traversalAllowedExpr_other)
  then show ?thesis
    by (simp add: start_def expr.simps [of 0 "u @ ts"] expr_primary.simps [of "u @ ts"])
qed

subsection \<open>The attribute expression name:v as an operand\<close>

lemma tae_operand_name: "tae_operand (name_tokens v p) (name_context v p)"
  using tae_operand_attribute
    [of "tok NAME ''name'' p" "tok COLON '':'' (p + 4)" "tok UNQUOTED_STRING v (p + 5)"]
  by (simp add: name_tokens_def name_context_def)

lemma operand_name:
  "operand (name_tokens v p) (TraversalAllowedExpressionContext (name_context v p))"
  by (rule operand_untraversed [OF tae_operand_name])

lemma traversal_run_simps [simp]:
  "traversal_run [tok STAR s p]"
  "traversal_run [tok PLUS s p]"
  "traversal_run [tok PLUS s p, tok PLUS s' p']"
  by (simp_all add: traversal_run_def)

subsection \<open>Every tree the parser builds is an operand\<close>

text \<open>
  The operands of the statements below are not a restricted family: whatever the
  switch over decision 0 builds from some input, it builds again from the tokens of
  that tree alone, before any token that can follow an expression; and the same
  holds of \<^verbatim>\<open>traversalAllowedExpr\<close> before any token at all.
\<close>

lemma adaptivePredict_2_exits: "adaptivePredict_2 p ts = 2 \<longleftrightarrow> loop_exits p ts"
  by (auto simp: adaptivePredict_2_def loop_exits_def precpred_def)

lemma parser_exits:
  "(case expr p ts of Inl e \<Rightarrow> True | Inr (c, r) \<Rightarrow> loop_exits p r)"
  "(ts2 :: Token list) = ts2"
  "(case expr_loop p3 ctx3 ts3 of Inl e \<Rightarrow> True | Inr (c, r) \<Rightarrow> loop_exits p3 r)"
  "(ts4 :: Token list) = ts4"
  "(ts5 :: Token list) = ts5"
proof (induct p ts and ts2 and p3 ctx3 ts3 and ts4 and ts5
    rule: expr_expr_primary_expr_loop_traversalAllowedExpr_adaptivePredict_0.induct)
  case (1 p ts)
  show ?case
  proof (cases "expr_primary ts")
    case (Inl e)
    then show ?thesis by (simp add: expr.simps [of p ts])
  next
    case (Inr b)
    obtain ctx r where b: "b = (ctx, r)" by (cases b)
    have "expr p ts = expr_loop p ctx r" using Inr b by (simp add: expr.simps [of p ts])
    then show ?thesis using "1.hyps"(2) [OF Inr b [symmetric]] by simp
  qed
next
  case (3 p ctx ts)
  show ?case
  proof (cases "adaptivePredict_2 p ts \<noteq> 2")
    case False
    then show ?thesis
      by (simp add: expr_loop.simps [of p ctx ts] adaptivePredict_2_exits)
  next
    case True
    note enter = True
    show ?thesis
    proof (cases "adaptivePredict_1 p ts = 1")
      case True
      note a1 = True
      show ?thesis
      proof (cases "precpred p 3")
        case False
        then show ?thesis using enter a1 by (simp add: expr_loop.simps [of p ctx ts])
      next
        case True
        note pp = True
        show ?thesis
        proof (cases "match AND ts")
          case (Inl e)
          then show ?thesis using enter a1 pp by (simp add: expr_loop.simps [of p ctx ts])
        next
          case (Inr b)
          obtain a r1 where b: "b = (a, r1)" by (cases b)
          have e: "expr_loop p ctx ts =
              (case expr 4 r1 of Inl e \<Rightarrow> Inl e | Inr (rhs, r2) \<Rightarrow>
                 expr_loop p (AndExpressionContext ctx a rhs) r2)"
            using enter a1 pp Inr b by (simp add: expr_loop.simps [of p ctx ts])
          show ?thesis
          proof (cases "expr 4 r1")
            case (Inl e2)
            then show ?thesis by (simp add: e)
          next
            case (Inr b2)
            obtain rhs r2 where b2: "b2 = (rhs, r2)" by (cases b2)
            have ih2: "case expr_loop p (AndExpressionContext ctx a rhs) r2 of
                         Inl e \<Rightarrow> True | Inr (c, r) \<Rightarrow> loop_exits p r"
              using "3.hyps"(2) [OF enter a1 _ \<open>match AND ts = Inr b\<close> b [symmetric]
                  Inr b2 [symmetric]] pp
              by simp
            have e2: "expr_loop p ctx ts = expr_loop p (AndExpressionContext ctx a rhs) r2"
              using e Inr b2 by simp
            show ?thesis unfolding e2 using ih2 .
          qed
        qed
      qed
    next
      case False
      note a1 = False
      show ?thesis
      proof (cases "precpred p 2")
        case False
        then show ?thesis using enter a1 by (simp add: expr_loop.simps [of p ctx ts])
      next
        case True
        note pp = True
        show ?thesis
        proof (cases "match OR ts")
          case (Inl e)
          then show ?thesis using enter a1 pp by (simp add: expr_loop.simps [of p ctx ts])
        next
          case (Inr b)
          obtain a r1 where b: "b = (a, r1)" by (cases b)
          have e: "expr_loop p ctx ts =
              (case expr 3 r1 of Inl e \<Rightarrow> Inl e | Inr (rhs, r2) \<Rightarrow>
                 expr_loop p (OrExpressionContext ctx a rhs) r2)"
            using enter a1 pp Inr b by (simp add: expr_loop.simps [of p ctx ts])
          show ?thesis
          proof (cases "expr 3 r1")
            case (Inl e2)
            then show ?thesis by (simp add: e)
          next
            case (Inr b2)
            obtain rhs r2 where b2: "b2 = (rhs, r2)" by (cases b2)
            have ih2: "case expr_loop p (OrExpressionContext ctx a rhs) r2 of
                         Inl e \<Rightarrow> True | Inr (c, r) \<Rightarrow> loop_exits p r"
              using "3.hyps"(4) [OF enter a1 _ \<open>match OR ts = Inr b\<close> b [symmetric]
                  Inr b2 [symmetric]] pp
              by simp
            have e2: "expr_loop p ctx ts = expr_loop p (OrExpressionContext ctx a rhs) r2"
              using e Inr b2 by simp
            show ?thesis unfolding e2 using ih2 .
          qed
        qed
      qed
    qed
  qed
qed simp_all

lemma expr_exits: "expr p ts = Inr (c, r) \<Longrightarrow> loop_exits p r"
  using parser_exits(1) [where p=p and ts=ts] by simp

lemma traversal_result_run:
  "traversal ts = Inr (u, r) \<Longrightarrow>
     traversal_run (children u) \<and> ts = children u @ r
     \<and> (kind (hd (children u)) = PLUS \<longrightarrow> LA1 r \<noteq> Some PLUS)"
proof (cases ts)
  case Nil
  then show "traversal ts = Inr (u, r) \<Longrightarrow> ?thesis" by (simp add: traversal_Nil)
next
  case (Cons t rest)
  assume "traversal ts = Inr (u, r)"
  then show ?thesis
    using Cons LA1_dropWhile_PLUS [of rest]
    by (auto simp: traversal_Cons traversal_run_def list_all_iff
        split: if_splits dest: set_takeWhileD)
qed

lemma attributeExpr_result_operand:
  assumes "attributeExpr ts = Inr (a, r)"
  shows "tae_operand (tokens_of_attributeExpr a) (AttributeExpressionContext a)"
proof -
  consider "ts = []" | n where "ts = [n]" | n c where "ts = [n, c]"
    | n c v r' where "ts = n # c # v # r'"
    by (cases ts rule: list.exhaust [case_product list.exhaust [case_product list.exhaust]])
       (metis list.exhaust)+
  then show ?thesis
  proof cases
    case 4
    with assms have k: "kind n = NAME \<or> kind n = NAME_SUBSTRING" "kind c = COLON"
      "kind v = QUOTED_STRING \<or> kind v = UNQUOTED_STRING"
      and a: "a = (if kind n = NAME then NameExprContext n c (ValueContext v)
                   else NameSubstringExprContext n c (ValueContext v))"
      by (auto simp: attributeExpr_Cons3 split: if_splits)
    show ?thesis using tae_operand_attribute [OF k] a by (auto split: if_splits)
  qed (use assms in \<open>simp_all add: attributeExpr_short split: if_splits\<close>)
qed

lemma follows_expr_loop_prefix:
  "pre = [] \<or> kind (hd pre) = AND \<or> kind (hd pre) = OR \<Longrightarrow> follows_expr r' \<Longrightarrow>
     follows_expr (pre @ r')"
  by (cases pre) auto

lemma loop_exits_4: "loop_exits 4 r"
  by (simp add: loop_exits_def)

lemma loop_exits_RPAREN: "kind rp = RPAREN \<Longrightarrow> loop_exits p (rp # r)"
  by (simp add: loop_exits_def)

lemma expr_loop_exits: "loop_exits p ts \<Longrightarrow> expr_loop p ctx ts = Inr (ctx, ts)"
  by (simp add: loop_exits_def expr_loop_exit)

lemma parser_reparse:
  "(case expr p ts of Inl e \<Rightarrow> True
    | Inr (c, r) \<Rightarrow>
        (\<forall>r'. follows_expr r' \<and> loop_exits p r' \<longrightarrow>
           expr p (tokens_of_expr c @ r') = Inr (c, r')))"
  "(case expr_primary ts2 of Inl e \<Rightarrow> True | Inr (c, r) \<Rightarrow> operand (tokens_of_expr c) c)"
  "(case expr_loop p3 ctx3 ts3 of Inl e \<Rightarrow> True
    | Inr (c, r) \<Rightarrow>
        (\<exists>pre. ts3 = pre @ r \<and> tokens_of_expr c = tokens_of_expr ctx3 @ pre
           \<and> (pre = [] \<or> kind (hd pre) = AND \<or> kind (hd pre) = OR)
           \<and> (\<forall>r'. follows_expr r' \<and> loop_exits p3 r' \<longrightarrow>
                 expr_loop p3 ctx3 (pre @ r') = Inr (c, r'))))"
  "(case traversalAllowedExpr ts4 of Inl e \<Rightarrow> True
    | Inr (c, r) \<Rightarrow> tae_operand (tokens_of_traversalAllowedExpr c) c)"
  "(ts5 :: Token list) = ts5"
proof (induct p ts and ts2 and p3 ctx3 ts3 and ts4 and ts5
    rule: expr_expr_primary_expr_loop_traversalAllowedExpr_adaptivePredict_0.induct)
  case (1 p ts)
  show ?case
  proof (cases "expr_primary ts")
    case (Inl e)
    then show ?thesis by (simp add: expr.simps [of p ts])
  next
    case (Inr b)
    obtain ctx r0 where b: "b = (ctx, r0)" by (cases b)
    have op: "operand (tokens_of_expr ctx) ctx" using "1.hyps"(1) Inr b by simp
    have e: "expr p ts = expr_loop p ctx r0" using Inr b by (simp add: expr.simps [of p ts])
    show ?thesis
    proof (cases "expr_loop p ctx r0")
      case (Inl e2)
      then show ?thesis by (simp add: e)
    next
      case (Inr b2)
      obtain c r where b2: "b2 = (c, r)" by (cases b2)
      from "1.hyps"(2) [OF \<open>expr_primary ts = Inr b\<close> b [symmetric]] Inr b2
      obtain pre where pre: "r0 = pre @ r" "tokens_of_expr c = tokens_of_expr ctx @ pre"
        "pre = [] \<or> kind (hd pre) = AND \<or> kind (hd pre) = OR"
        and re: "\<And>r'. follows_expr r' \<Longrightarrow> loop_exits p r' \<Longrightarrow>
                   expr_loop p ctx (pre @ r') = Inr (c, r')"
        by auto
      have "expr p (tokens_of_expr c @ r') = Inr (c, r')"
        if f: "follows_expr r'" and x: "loop_exits p r'" for r'
      proof -
        have "expr p (tokens_of_expr ctx @ (pre @ r')) = expr_loop p ctx (pre @ r')"
          using op follows_expr_loop_prefix [OF pre(3) f] by (rule expr_operand)
        then show ?thesis using re [OF f x] pre(2) by simp
      qed
      then show ?thesis using e Inr b2 by simp
    qed
  qed
next
  case (2 ts)
  show ?case
  proof (cases "adaptivePredict_0 ts")
    case (Inl e)
    then show ?thesis by (simp add: expr_primary.simps [of ts])
  next
    case (Inr alt)
    note ap = Inr
    consider "alt = 1" | "alt = 2" | "alt = 3" | "alt = 4" | "alt = 5"
      | "alt \<noteq> 1" "alt \<noteq> 2" "alt \<noteq> 3" "alt \<noteq> 4" "alt \<noteq> 5" by blast
    then show ?thesis
    proof cases
      case 1
      have ih: "case traversalAllowedExpr ts of Inl e \<Rightarrow> True
                | Inr (c, r) \<Rightarrow> tae_operand (tokens_of_traversalAllowedExpr c) c"
        using "2.hyps"(2) [OF ap 1] .
      have "expr_primary ts =
          (case traversalAllowedExpr ts of Inl e \<Rightarrow> Inl e
           | Inr (x, r) \<Rightarrow> Inr (TraversalAllowedExpressionContext x, r))"
        using ap 1 by (simp add: expr_primary.simps [of ts])
      then show ?thesis using ih
        by (cases "traversalAllowedExpr ts") (auto intro: operand_untraversed)
    next
      case 2
      show ?thesis
      proof (cases "traversal ts")
        case (Inl e)
        then show ?thesis using ap 2 by (simp add: expr_primary.simps [of ts])
      next
        case (Inr b)
        obtain u r1 where b: "b = (u, r1)" by (cases b)
        have ru: "traversal_run (children u)" using traversal_result_run Inr b by blast
        have ih: "case traversalAllowedExpr r1 of Inl e \<Rightarrow> True
                  | Inr (c, r) \<Rightarrow> tae_operand (tokens_of_traversalAllowedExpr c) c"
          using "2.hyps"(3) [OF ap _ 2 Inr b [symmetric]] 2 by simp
        show ?thesis
        proof (cases "traversalAllowedExpr r1")
          case (Inl e)
          then show ?thesis using ap 2 Inr b by (simp add: expr_primary.simps [of ts])
        next
          case (Inr b2)
          obtain x r2 where b2: "b2 = (x, r2)" by (cases b2)
          have ox: "tae_operand (tokens_of_traversalAllowedExpr x) x" using ih Inr b2 by simp
          have e: "expr_primary ts =
              (case traversal r2 of Inl e \<Rightarrow> Inl e | Inr (d, r3) \<Rightarrow>
                 Inr (UpAndDownTraversalExpressionContext u x d, r3))"
            using ap 2 \<open>traversal ts = Inr b\<close> b Inr b2
            by (simp add: expr_primary.simps [of ts])
          show ?thesis
          proof (cases "traversal r2")
            case (Inl e3)
            then show ?thesis by (simp add: e)
          next
            case (Inr b3)
            obtain d r3 where b3: "b3 = (d, r3)" by (cases b3)
            have rd: "traversal_run (children d)" using traversal_result_run Inr b3 by blast
            have "expr_primary ts = Inr (UpAndDownTraversalExpressionContext u x d, r3)"
              using e Inr b3 by simp
            moreover have "operand (children u @ tokens_of_traversalAllowedExpr x @ children d)
                (UpAndDownTraversalExpressionContext u x d)"
              using operand_up_and_down [OF ru ox rd] by simp
            ultimately show ?thesis by simp
          qed
        qed
      qed
    next
      case 3
      show ?thesis
      proof (cases "traversal ts")
        case (Inl e)
        then show ?thesis using ap 3 by (simp add: expr_primary.simps [of ts])
      next
        case (Inr b)
        obtain u r1 where b: "b = (u, r1)" by (cases b)
        have ru: "traversal_run (children u)" using traversal_result_run Inr b by blast
        have ih: "case traversalAllowedExpr r1 of Inl e \<Rightarrow> True
                  | Inr (c, r) \<Rightarrow> tae_operand (tokens_of_traversalAllowedExpr c) c"
          using "2.hyps"(4) [OF ap _ _ 3 Inr b [symmetric]] 3 by simp
        have e: "expr_primary ts =
            (case traversalAllowedExpr r1 of Inl e \<Rightarrow> Inl e | Inr (x, r2) \<Rightarrow>
               Inr (UpTraversalExpressionContext u x, r2))"
          using ap 3 Inr b by (simp add: expr_primary.simps [of ts])
        show ?thesis
        proof (cases "traversalAllowedExpr r1")
          case (Inl e2)
          then show ?thesis by (simp add: e)
        next
          case (Inr b2)
          obtain x r2 where b2: "b2 = (x, r2)" by (cases b2)
          have ox: "tae_operand (tokens_of_traversalAllowedExpr x) x" using ih Inr b2 by simp
          have "expr_primary ts = Inr (UpTraversalExpressionContext u x, r2)"
            using e Inr b2 by simp
          moreover have "operand (children u @ tokens_of_traversalAllowedExpr x)
              (UpTraversalExpressionContext u x)"
            using operand_up [OF ru ox] by simp
          ultimately show ?thesis by simp
        qed
      qed
    next
      case 4
      have ih: "case traversalAllowedExpr ts of Inl e \<Rightarrow> True
                | Inr (c, r) \<Rightarrow> tae_operand (tokens_of_traversalAllowedExpr c) c"
        using "2.hyps"(5) [OF ap _ _ _ 4] 4 by simp
      show ?thesis
      proof (cases "traversalAllowedExpr ts")
        case (Inl e)
        then show ?thesis using ap 4 by (simp add: expr_primary.simps [of ts])
      next
        case (Inr b)
        obtain x r1 where b: "b = (x, r1)" by (cases b)
        have ox: "tae_operand (tokens_of_traversalAllowedExpr x) x" using ih Inr b by simp
        have e: "expr_primary ts =
            (case traversal r1 of Inl e \<Rightarrow> Inl e | Inr (d, r2) \<Rightarrow>
               Inr (DownTraversalExpressionContext x d, r2))"
          using ap 4 Inr b by (simp add: expr_primary.simps [of ts])
        show ?thesis
        proof (cases "traversal r1")
          case (Inl e2)
          then show ?thesis by (simp add: e)
        next
          case (Inr b2)
          obtain d r2 where b2: "b2 = (d, r2)" by (cases b2)
          have rd: "traversal_run (children d)" using traversal_result_run Inr b2 by blast
          have "expr_primary ts = Inr (DownTraversalExpressionContext x d, r2)"
            using e Inr b2 by simp
          moreover have "operand (tokens_of_traversalAllowedExpr x @ children d)
              (DownTraversalExpressionContext x d)"
            using operand_down [OF ox rd] by simp
          ultimately show ?thesis by simp
        qed
      qed
    next
      case 5
      show ?thesis
      proof (cases "match NOT ts")
        case (Inl e)
        then show ?thesis using ap 5 by (simp add: expr_primary.simps [of ts])
      next
        case (Inr b)
        obtain n r1 where b: "b = (n, r1)" by (cases b)
        have kn: "kind n = NOT" using match_tokens [where k=NOT and ts=ts] Inr b by simp
        have ih: "case expr 4 r1 of Inl e \<Rightarrow> True
                  | Inr (c, r) \<Rightarrow>
                      (\<forall>r'. follows_expr r' \<and> loop_exits 4 r' \<longrightarrow>
                         expr 4 (tokens_of_expr c @ r') = Inr (c, r'))"
          using "2.hyps"(6) [OF ap _ _ _ _ 5 Inr b [symmetric]] 5 by simp
        have e: "expr_primary ts =
            (case expr 4 r1 of Inl e \<Rightarrow> Inl e | Inr (x, r2) \<Rightarrow>
               Inr (NotExpressionContext n x, r2))"
          using ap 5 Inr b by (simp add: expr_primary.simps [of ts])
        show ?thesis
        proof (cases "expr 4 r1")
          case (Inl e2)
          then show ?thesis by (simp add: e)
        next
          case (Inr b2)
          obtain x r2 where b2: "b2 = (x, r2)" by (cases b2)
          have re: "\<And>r'. follows_expr r' \<Longrightarrow> expr 4 (tokens_of_expr x @ r') = Inr (x, r')"
            using ih Inr b2 by (simp add: loop_exits_4)
          have "expr_primary ts = Inr (NotExpressionContext n x, r2)"
            using e Inr b2 by simp
          moreover have "operand (n # tokens_of_expr x) (NotExpressionContext n x)"
            using kn re by (simp add: operand_def expr_primary_not)
          ultimately show ?thesis by simp
        qed
      qed
    next
      case 6
      then have e: "expr_primary ts =
          (case match STAR ts of Inl e \<Rightarrow> Inl e | Inr (s, r) \<Rightarrow>
             Inr (AllExpressionContext s, r))"
        using ap by (simp add: expr_primary.simps [of ts])
      show ?thesis
      proof (cases "match STAR ts")
        case (Inl e2)
        then show ?thesis by (simp add: e)
      next
        case (Inr b)
        obtain s r where b: "b = (s, r)" by (cases b)
        have ks: "kind s = STAR" using match_tokens [where k=STAR and ts=ts] Inr b by simp
        have "expr_primary ts = Inr (AllExpressionContext s, r)" using e Inr b by simp
        then show ?thesis using operand_all [OF ks] by simp
      qed
    qed
  qed
next
  case (3 p ctx ts)
  show ?case
  proof (cases "adaptivePredict_2 p ts \<noteq> 2")
    case False
    then have "expr_loop p ctx ts = Inr (ctx, ts)" by (simp add: expr_loop.simps [of p ctx ts])
    then show ?thesis by (simp add: expr_loop_exits)
  next
    case True
    note enter = True
    show ?thesis
    proof (cases "adaptivePredict_1 p ts = 1")
      case True
      note a1 = True
      show ?thesis
      proof (cases "precpred p 3")
        case False
        then show ?thesis using enter a1 by (simp add: expr_loop.simps [of p ctx ts])
      next
        case True
        note pp = True
        show ?thesis
        proof (cases "match AND ts")
          case (Inl e)
          then show ?thesis using enter a1 pp by (simp add: expr_loop.simps [of p ctx ts])
        next
          case (Inr b)
          obtain a r1 where b: "b = (a, r1)" by (cases b)
          have l1: "ts = a # r1" and ka: "kind a = AND"
            using match_tokens [where k=AND and ts=ts] Inr b by simp_all
          have p3: "p \<le> 3" using pp by (simp add: precpred_def)
          have ih1: "case expr 4 r1 of Inl e \<Rightarrow> True
                     | Inr (c, r) \<Rightarrow>
                         (\<forall>r'. follows_expr r' \<and> loop_exits 4 r' \<longrightarrow>
                            expr 4 (tokens_of_expr c @ r') = Inr (c, r'))"
            using "3.hyps"(1) [OF enter a1 _ Inr b [symmetric]] pp by simp
          have e: "expr_loop p ctx ts =
              (case expr 4 r1 of Inl e \<Rightarrow> Inl e | Inr (rhs, r2) \<Rightarrow>
                 expr_loop p (AndExpressionContext ctx a rhs) r2)"
            using enter a1 pp Inr b by (simp add: expr_loop.simps [of p ctx ts])
          show ?thesis
          proof (cases "expr 4 r1")
            case (Inl e2)
            then show ?thesis by (simp add: e)
          next
            case (Inr b2)
            obtain rhs r2 where b2: "b2 = (rhs, r2)" by (cases b2)
            have l2: "r1 = tokens_of_expr rhs @ r2" using expr_tokens Inr b2 by blast
            have re1: "\<And>r'. follows_expr r' \<Longrightarrow>
                expr 4 (tokens_of_expr rhs @ r') = Inr (rhs, r')"
              using ih1 Inr b2 by (simp add: loop_exits_4)
            have ih2: "case expr_loop p (AndExpressionContext ctx a rhs) r2 of
                Inl e \<Rightarrow> True
              | Inr (c, r) \<Rightarrow>
                  (\<exists>pre. r2 = pre @ r
                     \<and> tokens_of_expr c = tokens_of_expr (AndExpressionContext ctx a rhs) @ pre
                     \<and> (pre = [] \<or> kind (hd pre) = AND \<or> kind (hd pre) = OR)
                     \<and> (\<forall>r'. follows_expr r' \<and> loop_exits p r' \<longrightarrow>
                           expr_loop p (AndExpressionContext ctx a rhs) (pre @ r') = Inr (c, r')))"
              using "3.hyps"(2) [OF enter a1 _ \<open>match AND ts = Inr b\<close> b [symmetric]
                  Inr b2 [symmetric]] pp
              by simp
            have e2: "expr_loop p ctx ts = expr_loop p (AndExpressionContext ctx a rhs) r2"
              using e Inr b2 by simp
            show ?thesis
            proof (cases "expr_loop p (AndExpressionContext ctx a rhs) r2")
              case (Inl e3)
              then show ?thesis by (simp add: e2)
            next
              case (Inr b3)
              obtain c r where b3: "b3 = (c, r)" by (cases b3)
              from ih2 Inr b3 obtain pre2 where pre2: "r2 = pre2 @ r"
                "tokens_of_expr c = tokens_of_expr (AndExpressionContext ctx a rhs) @ pre2"
                "pre2 = [] \<or> kind (hd pre2) = AND \<or> kind (hd pre2) = OR"
                and re2: "\<And>r'. follows_expr r' \<Longrightarrow> loop_exits p r' \<Longrightarrow>
                  expr_loop p (AndExpressionContext ctx a rhs) (pre2 @ r') = Inr (c, r')"
                by auto
              let ?pre = "a # tokens_of_expr rhs @ pre2"
              have t1: "ts = ?pre @ r" using l1 l2 pre2(1) by simp
              have t2: "tokens_of_expr c = tokens_of_expr ctx @ ?pre" using pre2(2) by simp
              have t3: "?pre = [] \<or> kind (hd ?pre) = AND \<or> kind (hd ?pre) = OR" using ka by simp
              have t4: "expr_loop p ctx (?pre @ r') = Inr (c, r')"
                if f: "follows_expr r'" and x: "loop_exits p r'" for r'
              proof -
                have "expr_loop p ctx (a # (tokens_of_expr rhs @ pre2 @ r')) =
                    (case expr 4 (tokens_of_expr rhs @ pre2 @ r') of Inl e \<Rightarrow> Inl e
                     | Inr (rhs', r2') \<Rightarrow>
                         expr_loop p (AndExpressionContext ctx a rhs') r2')"
                  by (rule expr_loop_and [OF ka p3])
                moreover have "expr 4 (tokens_of_expr rhs @ (pre2 @ r')) = Inr (rhs, pre2 @ r')"
                  by (rule re1 [OF follows_expr_loop_prefix [OF pre2(3) f]])
                ultimately show ?thesis using re2 [OF f x] by simp
              qed
              have "expr_loop p ctx ts = Inr (c, r)" using e2 Inr b3 by simp
              moreover have "\<exists>pre. ts = pre @ r \<and> tokens_of_expr c = tokens_of_expr ctx @ pre
                  \<and> (pre = [] \<or> kind (hd pre) = AND \<or> kind (hd pre) = OR)
                  \<and> (\<forall>r'. follows_expr r' \<and> loop_exits p r' \<longrightarrow>
                        expr_loop p ctx (pre @ r') = Inr (c, r'))"
                using t1 t2 t3 t4 by (intro exI [of _ ?pre]) blast
              ultimately show ?thesis by simp
            qed
          qed
        qed
      qed
    next
      case False
      note a1 = False
      show ?thesis
      proof (cases "precpred p 2")
        case False
        then show ?thesis using enter a1 by (simp add: expr_loop.simps [of p ctx ts])
      next
        case True
        note pp = True
        show ?thesis
        proof (cases "match OR ts")
          case (Inl e)
          then show ?thesis using enter a1 pp by (simp add: expr_loop.simps [of p ctx ts])
        next
          case (Inr b)
          obtain a r1 where b: "b = (a, r1)" by (cases b)
          have l1: "ts = a # r1" and ka: "kind a = OR"
            using match_tokens [where k=OR and ts=ts] Inr b by simp_all
          have p2: "p \<le> 2" using pp by (simp add: precpred_def)
          have ih1: "case expr 3 r1 of Inl e \<Rightarrow> True
                     | Inr (c, r) \<Rightarrow>
                         (\<forall>r'. follows_expr r' \<and> loop_exits 3 r' \<longrightarrow>
                            expr 3 (tokens_of_expr c @ r') = Inr (c, r'))"
            using "3.hyps"(3) [OF enter a1 _ Inr b [symmetric]] pp by simp
          have e: "expr_loop p ctx ts =
              (case expr 3 r1 of Inl e \<Rightarrow> Inl e | Inr (rhs, r2) \<Rightarrow>
                 expr_loop p (OrExpressionContext ctx a rhs) r2)"
            using enter a1 pp Inr b by (simp add: expr_loop.simps [of p ctx ts])
          show ?thesis
          proof (cases "expr 3 r1")
            case (Inl e2)
            then show ?thesis by (simp add: e)
          next
            case (Inr b2)
            obtain rhs r2 where b2: "b2 = (rhs, r2)" by (cases b2)
            have l2: "r1 = tokens_of_expr rhs @ r2" using expr_tokens Inr b2 by blast
            have x3: "loop_exits 3 r2" using expr_exits Inr b2 by blast
            have re1: "\<And>r'. follows_expr r' \<Longrightarrow> loop_exits 3 r' \<Longrightarrow>
                expr 3 (tokens_of_expr rhs @ r') = Inr (rhs, r')"
              using ih1 Inr b2 by simp
            have ih2: "case expr_loop p (OrExpressionContext ctx a rhs) r2 of
                Inl e \<Rightarrow> True
              | Inr (c, r) \<Rightarrow>
                  (\<exists>pre. r2 = pre @ r
                     \<and> tokens_of_expr c = tokens_of_expr (OrExpressionContext ctx a rhs) @ pre
                     \<and> (pre = [] \<or> kind (hd pre) = AND \<or> kind (hd pre) = OR)
                     \<and> (\<forall>r'. follows_expr r' \<and> loop_exits p r' \<longrightarrow>
                           expr_loop p (OrExpressionContext ctx a rhs) (pre @ r') = Inr (c, r')))"
              using "3.hyps"(4) [OF enter a1 _ \<open>match OR ts = Inr b\<close> b [symmetric]
                  Inr b2 [symmetric]] pp
              by simp
            have e2: "expr_loop p ctx ts = expr_loop p (OrExpressionContext ctx a rhs) r2"
              using e Inr b2 by simp
            show ?thesis
            proof (cases "expr_loop p (OrExpressionContext ctx a rhs) r2")
              case (Inl e3)
              then show ?thesis by (simp add: e2)
            next
              case (Inr b3)
              obtain c r where b3: "b3 = (c, r)" by (cases b3)
              from ih2 Inr b3 obtain pre2 where pre2: "r2 = pre2 @ r"
                "tokens_of_expr c = tokens_of_expr (OrExpressionContext ctx a rhs) @ pre2"
                "pre2 = [] \<or> kind (hd pre2) = AND \<or> kind (hd pre2) = OR"
                and re2: "\<And>r'. follows_expr r' \<Longrightarrow> loop_exits p r' \<Longrightarrow>
                  expr_loop p (OrExpressionContext ctx a rhs) (pre2 @ r') = Inr (c, r')"
                by auto
              let ?pre = "a # tokens_of_expr rhs @ pre2"
              have t1: "ts = ?pre @ r" using l1 l2 pre2(1) by simp
              have t2: "tokens_of_expr c = tokens_of_expr ctx @ ?pre" using pre2(2) by simp
              have t3: "?pre = [] \<or> kind (hd ?pre) = AND \<or> kind (hd ?pre) = OR" using ka by simp
              have t4: "expr_loop p ctx (?pre @ r') = Inr (c, r')"
                if f: "follows_expr r'" and x: "loop_exits p r'" for r'
              proof -
                have x3': "loop_exits 3 (pre2 @ r')"
                proof (cases pre2)
                  case Nil
                  then show ?thesis using x p2 by (auto simp: loop_exits_def)
                next
                  case (Cons t rest)
                  then show ?thesis using x3 pre2(1) by (simp add: loop_exits_def)
                qed
                have "expr_loop p ctx (a # (tokens_of_expr rhs @ pre2 @ r')) =
                    (case expr 3 (tokens_of_expr rhs @ pre2 @ r') of Inl e \<Rightarrow> Inl e
                     | Inr (rhs', r2') \<Rightarrow>
                         expr_loop p (OrExpressionContext ctx a rhs') r2')"
                  by (rule expr_loop_or [OF ka p2])
                moreover have "expr 3 (tokens_of_expr rhs @ (pre2 @ r')) = Inr (rhs, pre2 @ r')"
                  by (rule re1 [OF follows_expr_loop_prefix [OF pre2(3) f] x3'])
                ultimately show ?thesis using re2 [OF f x] by simp
              qed
              have "expr_loop p ctx ts = Inr (c, r)" using e2 Inr b3 by simp
              moreover have "\<exists>pre. ts = pre @ r \<and> tokens_of_expr c = tokens_of_expr ctx @ pre
                  \<and> (pre = [] \<or> kind (hd pre) = AND \<or> kind (hd pre) = OR)
                  \<and> (\<forall>r'. follows_expr r' \<and> loop_exits p r' \<longrightarrow>
                        expr_loop p ctx (pre @ r') = Inr (c, r'))"
                using t1 t2 t3 t4 by (intro exI [of _ ?pre]) blast
              ultimately show ?thesis by simp
            qed
          qed
        qed
      qed
    qed
  qed
next
  case (4 ts)
  show ?case
  proof (cases "LA1 ts = Some LPAREN")
    case False
    have "traversalAllowedExpr ts =
        (case attributeExpr ts of Inl e \<Rightarrow> Inl e
         | Inr (a, r) \<Rightarrow> Inr (AttributeExpressionContext a, r))
        \<or> (\<exists>e. traversalAllowedExpr ts = Inl e)"
      using False
      by (auto simp: traversalAllowedExpr.simps [of ts] split: option.splits TokenType.splits)
    then show ?thesis
      by (cases "attributeExpr ts") (auto dest: attributeExpr_result_operand)
  next
    case True
    show ?thesis
    proof (cases "match LPAREN ts")
      case (Inl e)
      then show ?thesis using True by (simp add: traversalAllowedExpr.simps [of ts])
    next
      case (Inr b)
      obtain l r1 where b: "b = (l, r1)" by (cases b)
      have kl: "kind l = LPAREN" using match_tokens [where k=LPAREN and ts=ts] Inr b by simp
      have ih: "case expr 0 r1 of Inl e \<Rightarrow> True
                | Inr (c, r) \<Rightarrow>
                    (\<forall>r'. follows_expr r' \<and> loop_exits 0 r' \<longrightarrow>
                       expr 0 (tokens_of_expr c @ r') = Inr (c, r'))"
        using "4.hyps" [OF True _ Inr b [symmetric]] by simp
      have e: "traversalAllowedExpr ts =
          (case expr 0 r1 of Inl e \<Rightarrow> Inl e | Inr (x, r2) \<Rightarrow>
          (case match RPAREN r2 of Inl e \<Rightarrow> Inl e | Inr (rp, r3) \<Rightarrow>
             Inr (ParenthesizedExpressionContext l x rp, r3)))"
        using True Inr b by (simp add: traversalAllowedExpr.simps [of ts])
      show ?thesis
      proof (cases "expr 0 r1")
        case (Inl e2)
        then show ?thesis by (simp add: e)
      next
        case (Inr b2)
        obtain x r2 where b2: "b2 = (x, r2)" by (cases b2)
        have re: "\<And>r'. follows_expr r' \<Longrightarrow> loop_exits 0 r' \<Longrightarrow>
            expr 0 (tokens_of_expr x @ r') = Inr (x, r')"
          using ih Inr b2 by simp
        show ?thesis
        proof (cases "match RPAREN r2")
          case (Inl e3)
          then show ?thesis using Inr b2 by (simp add: e)
        next
          case (Inr b3)
          obtain rp r3 where b3: "b3 = (rp, r3)" by (cases b3)
          have krp: "kind rp = RPAREN"
            using match_tokens [where k=RPAREN and ts=r2] Inr b3 by simp
          have "traversalAllowedExpr ts = Inr (ParenthesizedExpressionContext l x rp, r3)"
            using e \<open>expr 0 r1 = Inr b2\<close> b2 Inr b3 by simp
          moreover have "tae_operand (l # tokens_of_expr x @ [rp])
              (ParenthesizedExpressionContext l x rp)"
            using kl krp
            by (intro tae_operand_parenthesized) (simp_all add: re loop_exits_RPAREN)
          ultimately show ?thesis by simp
        qed
      qed
    qed
  qed
next
  case (5 ts)
  show ?case by simp
qed

lemma parsed_primary_is_operand:
  "expr_primary ts = Inr (A, r) \<Longrightarrow> operand (tokens_of_expr A) A"
  using parser_reparse(2) [of ts] by simp

lemma parsed_traversalAllowedExpr_is_operand:
  "traversalAllowedExpr ts = Inr (X, r) \<Longrightarrow> tae_operand (tokens_of_traversalAllowedExpr X) X"
  using parser_reparse(4) [of ts] by simp

section \<open>The claims\<close>

text \<open>
  C1. Every traversal qualifier that the \<^verbatim>\<open>traversal\<close> rule accepts is a run of tokens
  at the front of the input that is either one \<^verbatim>\<open>STAR\<close> token (the context then
  answers \<^verbatim>\<open>STAR()\<close> and has no \<^verbatim>\<open>PLUS()\<close>), or \<open>n \<ge> 1\<close> \<^verbatim>\<open>PLUS\<close> tokens, all of which
  the context records, so that the number of \<^verbatim>\<open>PLUS()\<close> children is \<open>n\<close>; the run of
  \<^verbatim>\<open>PLUS\<close> tokens is taken whole. A first token that is neither \<^verbatim>\<open>STAR\<close> nor \<^verbatim>\<open>PLUS\<close>
  is a syntax error at that token, and a first token that is one of them is accepted.
\<close>

theorem traversal_qualifier_runs:
  "(traversal ts = Inr (ctx, r) \<longrightarrow>
      ts = children ctx @ r
      \<and> ((\<exists>s. children ctx = [s] \<and> kind s = STAR
               \<and> TraversalContext_STAR ctx = Some s \<and> TraversalContext_PLUS ctx = [])
          \<or> (\<exists>n\<ge>1. map kind (children ctx) = replicate n PLUS
                \<and> TraversalContext_STAR ctx = None
                \<and> length (TraversalContext_PLUS ctx) = n
                \<and> LA1 r \<noteq> Some PLUS)))
   \<and> (LA1 ts \<noteq> Some STAR \<and> LA1 ts \<noteq> Some PLUS
        \<longrightarrow> traversal ts = Inl (RecognitionException (LT1 ts)))
   \<and> (LA1 ts = Some STAR \<or> LA1 ts = Some PLUS \<longrightarrow> (\<exists>ctx r. traversal ts = Inr (ctx, r)))"
proof (cases ts)
  case Nil
  then show ?thesis by (simp add: traversal_Nil LA1_def LT1_def)
next
  case (Cons t rest)
  let ?run = "t # takeWhile (\<lambda>t. kind t = PLUS) rest"
  have run: "kind t = PLUS \<Longrightarrow> map kind ?run = replicate (length ?run) PLUS"
    by (auto simp: map_replicate_const [symmetric] dest: set_takeWhileD intro!: map_cong)
  have filt: "kind t = PLUS \<Longrightarrow> filter (\<lambda>t. kind t = PLUS) ?run = ?run"
    by (auto simp: filter_id_conv dest: set_takeWhileD)
  have nostar: "kind t = PLUS \<Longrightarrow> find (\<lambda>t. kind t = STAR) ?run = None"
    by (auto simp: find_None_iff dest: set_takeWhileD)
  show ?thesis
  proof (cases "kind t = STAR")
    case True
    then show ?thesis using Cons
      by (auto simp: traversal_Cons LA1_def LT1_def TraversalContext_STAR_def
          TraversalContext_PLUS_def)
  next
    case False
    note ns = False
    show ?thesis
    proof (cases "kind t = PLUS")
      case True
      have tr: "traversal ts = Inr (TraversalContext ?run, dropWhile (\<lambda>t. kind t = PLUS) rest)"
        using True Cons by (simp add: traversal_Cons)
      have la: "LA1 ts = Some PLUS" using True Cons by (simp add: LA1_def)
      have split: "ts = ?run @ dropWhile (\<lambda>t. kind t = PLUS) rest" using Cons by simp
      have shape: "\<exists>n\<ge>1. map kind ?run = replicate n PLUS
                \<and> TraversalContext_STAR (TraversalContext ?run) = None
                \<and> length (TraversalContext_PLUS (TraversalContext ?run)) = n
                \<and> LA1 (dropWhile (\<lambda>t. kind t = PLUS) rest) \<noteq> Some PLUS"
      proof (intro exI [of _ "length ?run"] conjI)
        show "1 \<le> length ?run" by simp
        show "map kind ?run = replicate (length ?run) PLUS" by (rule run [OF True])
        show "TraversalContext_STAR (TraversalContext ?run) = None"
          using nostar [OF True] by (simp add: TraversalContext_STAR_def)
        show "length (TraversalContext_PLUS (TraversalContext ?run)) = length ?run"
          using filt [OF True] by (simp add: TraversalContext_PLUS_def)
        show "LA1 (dropWhile (\<lambda>t. kind t = PLUS) rest) \<noteq> Some PLUS"
          by (rule LA1_dropWhile_PLUS)
      qed
      show ?thesis
      proof (intro conjI impI)
        assume "traversal ts = Inr (ctx, r)"
        with tr have ctx: "ctx = TraversalContext ?run"
          and r: "r = dropWhile (\<lambda>t. kind t = PLUS) rest" by simp_all
        show "ts = children ctx @ r" using split ctx r by simp
        show "(\<exists>s. children ctx = [s] \<and> kind s = STAR
                 \<and> TraversalContext_STAR ctx = Some s \<and> TraversalContext_PLUS ctx = [])
              \<or> (\<exists>n\<ge>1. map kind (children ctx) = replicate n PLUS
                    \<and> TraversalContext_STAR ctx = None
                    \<and> length (TraversalContext_PLUS ctx) = n
                    \<and> LA1 r \<noteq> Some PLUS)"
          using shape unfolding ctx r TraversalContext.sel by (rule disjI2)
      next
        assume "LA1 ts \<noteq> Some STAR \<and> LA1 ts \<noteq> Some PLUS"
        with la show "traversal ts = Inl (RecognitionException (LT1 ts))" by simp
      next
        show "\<exists>ctx r. traversal ts = Inr (ctx, r)" using tr by blast
      qed
    next
      case False
      then show ?thesis using ns Cons
        by (simp add: traversal_Cons LA1_def LT1_def)
    qed
  qed
qed

theorem traversal_qualifier_runs_witness:
  "traversal [tok PLUS ''+'' 0, tok PLUS ''+'' 1, tok NAME ''name'' 2]
     = Inr (TraversalContext [tok PLUS ''+'' 0, tok PLUS ''+'' 1], [tok NAME ''name'' 2])
   \<and> length (TraversalContext_PLUS (TraversalContext [tok PLUS ''+'' 0, tok PLUS ''+'' 1])) = 2
   \<and> TraversalContext_STAR (TraversalContext [tok PLUS ''+'' 0, tok PLUS ''+'' 1]) = None
   \<and> traversal [tok NAME ''name'' 0] = Inl (RecognitionException (Some (tok NAME ''name'' 0)))"
proof -
  have h: "traversal [tok PLUS ''+'' 0, tok PLUS ''+'' 1, tok NAME ''name'' 2]
     = Inr (TraversalContext [tok PLUS ''+'' 0, tok PLUS ''+'' 1], [tok NAME ''name'' 2])"
    by (simp add: traversal_Cons)
  show ?thesis
    using h
      traversal_qualifier_runs [of "[tok PLUS ''+'' 0, tok PLUS ''+'' 1, tok NAME ''name'' 2]"
        "TraversalContext [tok PLUS ''+'' 0, tok PLUS ''+'' 1]" "[tok NAME ''name'' 2]"]
      traversal_qualifier_runs [of "[tok NAME ''name'' 0]"]
    by (simp add: TraversalContext_STAR_def TraversalContext_PLUS_def)
qed

text \<open>
  C2, as stated. The claim takes the input \<^verbatim>\<open>+foo+\<close>, the tokens \<^verbatim>\<open>PLUS\<close>, the bare name
  \<^verbatim>\<open>foo\<close> (an \<^verbatim>\<open>UNQUOTED_STRING\<close>) and \<^verbatim>\<open>PLUS\<close>, and says that it parses as an
  up-and-down traversal. The parser rejects it: after the leading \<^verbatim>\<open>+\<close> only a
  \<^verbatim>\<open>traversalAllowedExpr\<close> can come, which starts with \<^verbatim>\<open>name\<close>, \<^verbatim>\<open>name_substring\<close> or
  \<^verbatim>\<open>(\<close>, so the syntax error is reported at the token \<^verbatim>\<open>foo\<close> and no tree is returned.
\<close>

theorem plus_foo_plus_counterexample:
  "start [tok PLUS ''+'' 0, tok UNQUOTED_STRING ''foo'' 1, tok PLUS ''+'' 4]
     = Inl (RecognitionException (Some (tok UNQUOTED_STRING ''foo'' 1)))
   \<and> (\<forall>t. start [tok PLUS ''+'' 0, tok UNQUOTED_STRING ''foo'' 1, tok PLUS ''+'' 4] \<noteq> Inr t)"
  by (simp add: parser_eval)

text \<open>
  C2, amended. The input \<^verbatim>\<open>+name:foo+\<close> (the tokens \<^verbatim>\<open>PLUS\<close>, \<^verbatim>\<open>NAME\<close>, \<^verbatim>\<open>COLON\<close>, the
  unquoted value \<^verbatim>\<open>foo\<close>, \<^verbatim>\<open>PLUS\<close>) parses as one
  \<^verbatim>\<open>UpAndDownTraversalExpressionContext\<close> with one \<^verbatim>\<open>PLUS\<close> in each qualifier; its AST is
  an up-and-down traversal of depth 1 each way around the match of the name \<^verbatim>\<open>foo\<close>,
  and on the chain \<^verbatim>\<open>a -> foo -> b\<close> the evaluation of the specification returns the
  node set \<open>{a, foo, b}\<close>.
\<close>

theorem plus_name_foo_plus_on_chain:
  "start [tok PLUS ''+'' 0, tok NAME ''name'' 1, tok COLON '':'' 5,
          tok UNQUOTED_STRING ''foo'' 6, tok PLUS ''+'' 9]
     = Inr (StartContext
         (UpAndDownTraversalExpressionContext
           (TraversalContext [tok PLUS ''+'' 0])
           (AttributeExpressionContext
             (NameExprContext (tok NAME ''name'' 1) (tok COLON '':'' 5)
               (ValueContext (tok UNQUOTED_STRING ''foo'' 6))))
           (TraversalContext [tok PLUS ''+'' 9])))
   \<and> ast_of_expr
         (UpAndDownTraversalExpressionContext
           (TraversalContext [tok PLUS ''+'' 0])
           (AttributeExpressionContext
             (NameExprContext (tok NAME ''name'' 1) (tok COLON '':'' 5)
               (ValueContext (tok UNQUOTED_STRING ''foo'' 6))))
           (TraversalContext [tok PLUS ''+'' 9]))
       = UpAndDownTraversal (Bounded 1) (AttributeMatch NameAttribute ''foo'') (Bounded 1)
   \<and> evaluate (UpAndDownTraversal (Bounded 1) (AttributeMatch NameAttribute ''foo'') (Bounded 1))
         chain_graph
       = {''a'', ''foo'', ''b''}"
proof (intro conjI)
  show "evaluate (UpAndDownTraversal (Bounded 1) (AttributeMatch NameAttribute ''foo'') (Bounded 1))
         chain_graph = {''a'', ''foo'', ''b''}"
  proof -
    have m: "evaluate (AttributeMatch NameAttribute ''foo'') chain_graph = {''foo''}"
      by (auto simp: chain_graph_def)
    show ?thesis
      by (auto simp: m hop_def chain_graph_def)
  qed
qed (simp_all add: parser_eval depth_of_def TraversalContext_STAR_def TraversalContext_PLUS_def)

text \<open>
  C3, as stated. The claim puts \<^verbatim>\<open>NOT\<close> above the traversal qualifiers in binding
  strength. In the parser it is the other way round: \<^verbatim>\<open>NOT\<close> takes a whole \<^verbatim>\<open>expr\<close> as
  its operand, and a traversal qualifier is part of a primary alternative of that
  \<^verbatim>\<open>expr\<close>. On \<^verbatim>\<open>not name:a+\<close> the qualifier \<^verbatim>\<open>+\<close> goes with \<^verbatim>\<open>name:a\<close> and the negation
  is applied to the traversal; the tree is not a traversal of a negation.
\<close>

theorem not_above_traversal_counterexample:
  "start (tok NOT ''not'' 0 # name_tokens ''a'' 4 @ [tok PLUS ''+'' 10])
     = Inr (StartContext
         (NotExpressionContext (tok NOT ''not'' 0)
           (DownTraversalExpressionContext (name_context ''a'' 4)
             (TraversalContext [tok PLUS ''+'' 10]))))
   \<and> (\<forall>x d. start (tok NOT ''not'' 0 # name_tokens ''a'' 4 @ [tok PLUS ''+'' 10])
          \<noteq> Inr (StartContext (DownTraversalExpressionContext x d)))"
  by (simp add: parser_eval name_tokens_def name_context_def)

text \<open>
  C3, amended. From tightest to loosest the parser binds traversal qualifiers, then
  \<^verbatim>\<open>NOT\<close>, then \<^verbatim>\<open>AND\<close>, then \<^verbatim>\<open>OR\<close>. For all operands \<^verbatim>\<open>a\<close>, \<^verbatim>\<open>b\<close>, \<^verbatim>\<open>c\<close>, every
  \<^verbatim>\<open>traversalAllowedExpr\<close> \<^verbatim>\<open>x\<close> and every traversal qualifier \<^verbatim>\<open>d\<close>:
  \<^verbatim>\<open>a or b and c\<close> parses as Or(a, And(b, c)) and \<^verbatim>\<open>a and b or c\<close> as Or(And(a, b), c);
  \<^verbatim>\<open>not a and b\<close> parses as And(Not(a), b) and \<^verbatim>\<open>not a or b\<close> as Or(Not(a), b);
  \<^verbatim>\<open>not x d\<close> parses as Not(Down(x, d)) and \<^verbatim>\<open>not d x\<close> as Not(Up(d, x));
  \<^verbatim>\<open>x d and b\<close> parses as And(Down(x, d), b).
\<close>

theorem precedence_traversal_not_and_or:
  assumes "operand a A" "operand b B" "operand c C" "tae_operand x X" "traversal_run d"
    "kind o1 = OR" "kind o2 = AND" "kind n = NOT"
  shows "start (a @ o1 # b @ o2 # c) =
           Inr (StartContext (OrExpressionContext A o1 (AndExpressionContext B o2 C)))
       \<and> start (a @ o2 # b @ o1 # c) =
           Inr (StartContext (OrExpressionContext (AndExpressionContext A o2 B) o1 C))
       \<and> start (n # a @ o2 # b) =
           Inr (StartContext (AndExpressionContext (NotExpressionContext n A) o2 B))
       \<and> start (n # a @ o1 # b) =
           Inr (StartContext (OrExpressionContext (NotExpressionContext n A) o1 B))
       \<and> start (n # x @ d) =
           Inr (StartContext (NotExpressionContext n
             (DownTraversalExpressionContext X (TraversalContext d))))
       \<and> start (n # d @ x) =
           Inr (StartContext (NotExpressionContext n
             (UpTraversalExpressionContext (TraversalContext d) X)))
       \<and> start (x @ d @ o2 # b) =
           Inr (StartContext (AndExpressionContext
             (DownTraversalExpressionContext X (TraversalContext d)) o2 B))"
proof (intro conjI)
  note k = assms(6,7,8)
  have c4: "expr 4 c = Inr (C, [])" and c3: "expr 3 c = Inr (C, [])"
    and b4: "expr 4 b = Inr (B, [])" and b3: "expr 3 b = Inr (B, [])"
    by (simp_all add: expr_operand_end [OF assms(3)] expr_operand_end [OF assms(2)] expr_loop_exit)
  have b3c: "expr 3 (b @ o2 # c) = Inr (AndExpressionContext B o2 C, [])"
    using k by (simp add: expr_operand [OF assms(2)] expr_loop_and c4 expr_loop_exit)
  have b4c: "expr 4 (b @ o1 # c) = Inr (B, o1 # c)"
    using k by (simp add: expr_operand [OF assms(2)] expr_loop_exit)
  have a4b: "expr 4 (a @ o2 # b) = Inr (A, o2 # b)"
    and a4b': "expr 4 (a @ o1 # b) = Inr (A, o1 # b)"
    using k by (simp_all add: expr_operand [OF assms(1)] expr_loop_exit)
  show "start (a @ o1 # b @ o2 # c) =
           Inr (StartContext (OrExpressionContext A o1 (AndExpressionContext B o2 C)))"
    using k by (simp add: start_def matchEOF_def expr_operand [OF assms(1)] expr_loop_or b3c
        expr_loop_exit)
  show "start (a @ o2 # b @ o1 # c) =
           Inr (StartContext (OrExpressionContext (AndExpressionContext A o2 B) o1 C))"
    using k by (simp add: start_def matchEOF_def expr_operand [OF assms(1)] expr_loop_and
        expr_loop_or b4c c3 expr_loop_exit)
  show "start (n # a @ o2 # b) =
           Inr (StartContext (AndExpressionContext (NotExpressionContext n A) o2 B))"
    using k by (simp add: start_def matchEOF_def expr.simps [of 0 "n # a @ o2 # b"]
        expr_primary_not a4b expr_loop_and b4 expr_loop_exit)
  show "start (n # a @ o1 # b) =
           Inr (StartContext (OrExpressionContext (NotExpressionContext n A) o1 B))"
    using k by (simp add: start_def matchEOF_def expr.simps [of 0 "n # a @ o1 # b"]
        expr_primary_not a4b' expr_loop_or b3 expr_loop_exit)
  have "expr_primary (x @ d @ []) = Inr (DownTraversalExpressionContext X (TraversalContext d), [])"
    by (rule expr_primary_down [OF assms(4,5)]) simp
  then have "expr 4 (x @ d) = Inr (DownTraversalExpressionContext X (TraversalContext d), [])"
    by (simp add: expr.simps [of 4 "x @ d"] expr_loop_exit)
  then show "start (n # x @ d) =
           Inr (StartContext (NotExpressionContext n
             (DownTraversalExpressionContext X (TraversalContext d))))"
    using k by (simp add: start_def matchEOF_def expr.simps [of 0 "n # x @ d"]
        expr_primary_not expr_loop_exit)
  have "expr_primary (d @ x @ []) = Inr (UpTraversalExpressionContext (TraversalContext d) X, [])"
    by (rule expr_primary_up [OF assms(5,4)]) simp_all
  then have "expr 4 (d @ x) = Inr (UpTraversalExpressionContext (TraversalContext d) X, [])"
    by (simp add: expr.simps [of 4 "d @ x"] expr_loop_exit)
  then show "start (n # d @ x) =
           Inr (StartContext (NotExpressionContext n
             (UpTraversalExpressionContext (TraversalContext d) X)))"
    using k by (simp add: start_def matchEOF_def expr.simps [of 0 "n # d @ x"]
        expr_primary_not expr_loop_exit)
  have "expr_primary (x @ d @ o2 # b) =
          Inr (DownTraversalExpressionContext X (TraversalContext d), o2 # b)"
    using k by (intro expr_primary_down [OF assms(4,5)]) simp
  then show "start (x @ d @ o2 # b) =
           Inr (StartContext (AndExpressionContext
             (DownTraversalExpressionContext X (TraversalContext d)) o2 B))"
    using k by (simp add: start_def matchEOF_def expr.simps [of 0 "x @ d @ o2 # b"]
        expr_loop_and b4 expr_loop_exit)
qed

theorem precedence_traversal_not_and_or_witness:
  "operand (name_tokens ''a'' 0) (TraversalAllowedExpressionContext (name_context ''a'' 0))
   \<and> operand (name_tokens ''b'' 10) (TraversalAllowedExpressionContext (name_context ''b'' 10))
   \<and> operand (name_tokens ''c'' 21) (TraversalAllowedExpressionContext (name_context ''c'' 21))
   \<and> tae_operand (name_tokens ''a'' 0) (name_context ''a'' 0)
   \<and> traversal_run [tok PLUS ''+'' 6]
   \<and> start (name_tokens ''a'' 0 @ tok OR ''or'' 7 # name_tokens ''b'' 10
              @ tok AND ''and'' 17 # name_tokens ''c'' 21)
       = Inr (StartContext
           (OrExpressionContext (TraversalAllowedExpressionContext (name_context ''a'' 0))
              (tok OR ''or'' 7)
              (AndExpressionContext (TraversalAllowedExpressionContext (name_context ''b'' 10))
                 (tok AND ''and'' 17)
                 (TraversalAllowedExpressionContext (name_context ''c'' 21)))))"
  using precedence_traversal_not_and_or
    [OF operand_name [of "''a''" 0] operand_name [of "''b''" 10] operand_name [of "''c''" 21]
      tae_operand_name [of "''a''" 0] traversal_run_simps(2) [of "''+''" 6],
      of "tok OR ''or'' 7" "tok AND ''and'' 17" "tok NOT ''not'' 0"]
    operand_name tae_operand_name
  by simp

text \<open>
  C4, as it is stated, fails. On the tokens of \<^verbatim>\<open>name:a name:b\<close> the rule \<^verbatim>\<open>expr(0)\<close>
  reads the complete expression \<^verbatim>\<open>name:a\<close> and leaves the three tokens of \<^verbatim>\<open>name:b\<close>.
  \<^verbatim>\<open>start()\<close> reports a syntax error at the second \<^verbatim>\<open>name\<close> (offset 7), and it then
  returns its context all the same: the child \<^verbatim>\<open>expr()\<close> of that context is the tree
  of the leading \<^verbatim>\<open>name:a\<close>, a tree of a proper prefix of the input, next to the
  skipped tokens as error nodes and with no \<^verbatim>\<open>EOF\<close> child.
\<close>

theorem start_returns_leading_tree_counterexample:
  "expr 0 (name_tokens ''a'' 0 @ name_tokens ''b'' 7)
     = Inr (TraversalAllowedExpressionContext (name_context ''a'' 0), name_tokens ''b'' 7)
   \<and> tokens_of_expr (TraversalAllowedExpressionContext (name_context ''a'' 0))
     = name_tokens ''a'' 0
   \<and> start_localctx (name_tokens ''a'' 0 @ name_tokens ''b'' 7)
     = Inr (\<lparr>expr_child = TraversalAllowedExpressionContext (name_context ''a'' 0),
             errorNodes = name_tokens ''b'' 7, EOF_child = False,
             exception = Some (RecognitionException (Some (tok NAME ''name'' 7)))\<rparr>,
            [Some (tok NAME ''name'' 7)])"
  by (simp add: start_localctx_def parser_eval name_tokens_def name_context_def)

text \<open>
  C4, amended. A parse by \<^verbatim>\<open>start()\<close> that reports no error has read the whole token
  stream: the tree it returns spans every token of the input. Whenever \<^verbatim>\<open>expr(0)\<close> has
  read a complete expression and one or more tokens remain, \<^verbatim>\<open>start()\<close> reports one
  syntax error, at the first remaining token, and the context it returns holds the
  tree of the leading expression and the remaining tokens as error nodes (the \<^verbatim>\<open>EOF\<close>
  child is there, and no exception is stored, exactly when a single token
  remained). That is the case of every complete expression followed by tokens that
  begin with a closing parenthesis. The tree of a complete expression is never the
  error-free result for an input that goes on after it. So the report is certain,
  and what keeps the partial tree from a caller is a listener that raises on it.
\<close>

theorem start_reports_error_at_first_unread_token:
  "(start_localctx ts = Inr (ret, []) \<longrightarrow>
        tokens_of_expr (expr_child ret) = ts \<and> errorNodes ret = [] \<and> EOF_child ret
      \<and> exception ret = None \<and> start ts = Inr (StartContext (expr_child ret)))
   \<and> (expr 0 ts = Inr (c, r) \<and> r \<noteq> [] \<longrightarrow>
        ts = tokens_of_expr c @ r
      \<and> start ts = Inl (RecognitionException (Some (hd r)))
      \<and> start_localctx ts =
          Inr (\<lparr>expr_child = c, errorNodes = r, EOF_child = (tl r = []),
                 exception = (if tl r = [] then None
                              else Some (RecognitionException (Some (hd r))))\<rparr>,
               [Some (hd r)]))
   \<and> (start ts = Inr (StartContext c) \<and> LA1 extra = Some RPAREN \<longrightarrow>
        expr 0 (ts @ extra) = Inr (c, extra))
   \<and> (start ts = Inr (StartContext c) \<and> extra \<noteq> [] \<longrightarrow>
        start (ts @ extra) \<noteq> Inr (StartContext c))"
proof (intro conjI impI)
  assume s: "start_localctx ts = Inr (ret, [])"
  then obtain c where e: "expr 0 ts = Inr (c, [])"
      and r: "ret = \<lparr>expr_child = c, errorNodes = [], EOF_child = True, exception = None\<rparr>"
    by (auto simp: start_localctx_def split: sum.splits list.splits if_splits)
  show "tokens_of_expr (expr_child ret) = ts" using expr_tokens [OF e] r by simp
  show "errorNodes ret = []" "EOF_child ret" "exception ret = None" using r by simp_all
  show "start ts = Inr (StartContext (expr_child ret))"
    using e r by (simp add: start_def matchEOF_def)
next
  assume a: "expr 0 ts = Inr (c, r) \<and> r \<noteq> []"
  then show "ts = tokens_of_expr c @ r" using expr_tokens by blast
  from a show "start ts = Inl (RecognitionException (Some (hd r)))"
    by (cases r) (simp_all add: start_def matchEOF_def)
  from a show "start_localctx ts =
          Inr (\<lparr>expr_child = c, errorNodes = r, EOF_child = (tl r = []),
                 exception = (if tl r = [] then None
                              else Some (RecognitionException (Some (hd r))))\<rparr>,
               [Some (hd r)])"
    by (cases r) (simp_all add: start_localctx_def)
next
  assume a: "start ts = Inr (StartContext c) \<and> LA1 extra = Some RPAREN"
  then have e: "expr 0 ts = Inr (c, [])"
    by (auto simp: start_def matchEOF_def split: sum.splits list.splits)
  then have t: "tokens_of_expr c = ts" using expr_tokens by fastforce
  have "follows_expr extra \<and> loop_exits 0 extra"
    using a by (simp add: follows_expr_def loop_exits_def)
  then show "expr 0 (ts @ extra) = Inr (c, extra)"
    using parser_reparse(1) [of 0 ts] e t by simp
next
  assume a: "start ts = Inr (StartContext c) \<and> extra \<noteq> []"
  then have "expr 0 ts = Inr (c, [])"
    by (auto simp: start_def matchEOF_def split: sum.splits list.splits)
  then have t: "tokens_of_expr c = ts" using expr_tokens by fastforce
  show "start (ts @ extra) \<noteq> Inr (StartContext c)"
  proof
    assume "start (ts @ extra) = Inr (StartContext c)"
    then have "expr 0 (ts @ extra) = Inr (c, [])"
      by (auto simp: start_def matchEOF_def split: sum.splits list.splits)
    then have "tokens_of_expr c = ts @ extra" using expr_tokens by fastforce
    with t a show False by simp
  qed
qed

theorem start_reports_error_at_first_unread_token_witness:
  "start_localctx (name_tokens ''a'' 0)
     = Inr (\<lparr>expr_child = TraversalAllowedExpressionContext (name_context ''a'' 0),
             errorNodes = [], EOF_child = True, exception = None\<rparr>, [])
   \<and> tokens_of_expr (TraversalAllowedExpressionContext (name_context ''a'' 0))
     = name_tokens ''a'' 0
   \<and> start (name_tokens ''a'' 0)
     = Inr (StartContext (TraversalAllowedExpressionContext (name_context ''a'' 0)))
   \<and> expr 0 [tok STAR ''*'' 0, tok STAR ''*'' 1]
     = Inr (AllExpressionContext (tok STAR ''*'' 0), [tok STAR ''*'' 1])
   \<and> [tok STAR ''*'' 1] \<noteq> []
   \<and> start [tok STAR ''*'' 0, tok STAR ''*'' 1]
     = Inl (RecognitionException (Some (tok STAR ''*'' 1)))
   \<and> start_localctx [tok STAR ''*'' 0, tok STAR ''*'' 1]
     = Inr (\<lparr>expr_child = AllExpressionContext (tok STAR ''*'' 0),
             errorNodes = [tok STAR ''*'' 1], EOF_child = True, exception = None\<rparr>,
            [Some (tok STAR ''*'' 1)])
   \<and> LA1 [tok RPAREN '')'' 6] = Some RPAREN
   \<and> expr 0 (name_tokens ''a'' 0 @ [tok RPAREN '')'' 6])
     = Inr (TraversalAllowedExpressionContext (name_context ''a'' 0), [tok RPAREN '')'' 6])
   \<and> name_tokens ''b'' 7 \<noteq> []
   \<and> start (name_tokens ''a'' 0 @ name_tokens ''b'' 7)
     \<noteq> Inr (StartContext (TraversalAllowedExpressionContext (name_context ''a'' 0)))"
proof -
  let ?a = "TraversalAllowedExpressionContext (name_context ''a'' 0)"
  let ?clean = "\<lparr>expr_child = ?a, errorNodes = [], EOF_child = True, exception = None\<rparr>"
  have l: "start_localctx (name_tokens ''a'' 0) = Inr (?clean, [])"
    by (simp add: start_localctx_def parser_eval name_tokens_def name_context_def)
  have c1: "tokens_of_expr (expr_child ?clean) = name_tokens ''a'' 0
      \<and> start (name_tokens ''a'' 0) = Inr (StartContext (expr_child ?clean))"
    using l start_reports_error_at_first_unread_token
        [where ts="name_tokens ''a'' 0" and ret="?clean"]
    by blast
  have s: "start (name_tokens ''a'' 0) = Inr (StartContext ?a)"
    and t: "tokens_of_expr ?a = name_tokens ''a'' 0"
    using c1 by simp_all
  have h: "expr 0 [tok STAR ''*'' 0, tok STAR ''*'' 1]
      = Inr (AllExpressionContext (tok STAR ''*'' 0), [tok STAR ''*'' 1])"
    by (simp add: parser_eval traversalAllowedExpr_other)
  have n: "[tok STAR ''*'' 1] \<noteq> []" by simp
  have c2: "start [tok STAR ''*'' 0, tok STAR ''*'' 1]
        = Inl (RecognitionException (Some (hd [tok STAR ''*'' 1])))
      \<and> start_localctx [tok STAR ''*'' 0, tok STAR ''*'' 1]
        = Inr (\<lparr>expr_child = AllExpressionContext (tok STAR ''*'' 0),
                errorNodes = [tok STAR ''*'' 1], EOF_child = (tl [tok STAR ''*'' 1] = []),
                exception = (if tl [tok STAR ''*'' 1] = [] then None
                   else Some (RecognitionException (Some (hd [tok STAR ''*'' 1]))))\<rparr>,
               [Some (hd [tok STAR ''*'' 1])])"
    using h n
      start_reports_error_at_first_unread_token
        [where ts="[tok STAR ''*'' 0, tok STAR ''*'' 1]"
           and c="AllExpressionContext (tok STAR ''*'' 0)" and r="[tok STAR ''*'' 1]"]
    by blast
  have p: "LA1 [tok RPAREN '')'' 6] = Some RPAREN" by simp
  have c3: "expr 0 (name_tokens ''a'' 0 @ [tok RPAREN '')'' 6])
      = Inr (?a, [tok RPAREN '')'' 6])"
    using s p
      start_reports_error_at_first_unread_token
        [where ts="name_tokens ''a'' 0" and c="?a" and extra="[tok RPAREN '')'' 6]"]
    by blast
  have m: "name_tokens ''b'' 7 \<noteq> []" by (simp add: name_tokens_def)
  have c4: "start (name_tokens ''a'' 0 @ name_tokens ''b'' 7) \<noteq> Inr (StartContext ?a)"
    using s m
      start_reports_error_at_first_unread_token
        [where ts="name_tokens ''a'' 0" and c="?a" and extra="name_tokens ''b'' 7"]
    by blast
  show ?thesis
    using l t s h n c2 p c3 m c4 by simp
qed

text \<open>
  C5. What \<^verbatim>\<open>traversalAllowedExpr\<close> accepts is an attribute expression (first token
  \<^verbatim>\<open>NAME\<close> or \<^verbatim>\<open>NAME_SUBSTRING\<close>, parsed by \<^verbatim>\<open>attributeExpr\<close>) or a parenthesized
  expression \<^verbatim>\<open>LPAREN expr RPAREN\<close>. On any other first token, a bare unquoted string,
  \<^verbatim>\<open>not\<close> and \<^verbatim>\<open>*\<close> among them, it reports a syntax error at that token. So a run of
  \<^verbatim>\<open>+\<close> followed by such a token makes \<^verbatim>\<open>start\<close> fail at that token, and so does a
  \<^verbatim>\<open>*\<close> followed by such a token, unless the token is \<^verbatim>\<open>and\<close> or \<^verbatim>\<open>or\<close> or the input
  ends there (the \<^verbatim>\<open>*\<close> is then the expression that selects everything).
\<close>

theorem traversal_attaches_only_to_traversalAllowedExpr:
  "(traversalAllowedExpr ts = Inr (X, r) \<longrightarrow>
      ((LA1 ts = Some NAME \<or> LA1 ts = Some NAME_SUBSTRING)
         \<and> (\<exists>a. X = AttributeExpressionContext a \<and> attributeExpr ts = Inr (a, r)))
      \<or> (LA1 ts = Some LPAREN
         \<and> (\<exists>l e rp. X = ParenthesizedExpressionContext l e rp \<and> kind l = LPAREN
               \<and> kind rp = RPAREN \<and> ts = l # tokens_of_expr e @ rp # r
               \<and> expr 0 (tl ts) = Inr (e, rp # r))))
   \<and> (LA1 ts \<noteq> Some NAME \<and> LA1 ts \<noteq> Some NAME_SUBSTRING \<and> LA1 ts \<noteq> Some LPAREN \<longrightarrow>
        traversalAllowedExpr ts = Inl (RecognitionException (LT1 ts)))
   \<and> (u \<noteq> [] \<and> list_all (\<lambda>t. kind t = PLUS) u
        \<and> LA1 ts \<noteq> Some NAME \<and> LA1 ts \<noteq> Some NAME_SUBSTRING \<and> LA1 ts \<noteq> Some LPAREN
        \<and> LA1 ts \<noteq> Some PLUS \<longrightarrow>
        start (u @ ts) = Inl (RecognitionException (LT1 ts)))
   \<and> (kind s = STAR
        \<and> LA1 ts \<noteq> Some NAME \<and> LA1 ts \<noteq> Some NAME_SUBSTRING \<and> LA1 ts \<noteq> Some LPAREN
        \<and> LA1 ts \<noteq> Some AND \<and> LA1 ts \<noteq> Some OR \<and> ts \<noteq> [] \<longrightarrow>
        start (s # ts) = Inl (RecognitionException (LT1 ts)))"
proof (intro conjI impI)
  assume ok: "traversalAllowedExpr ts = Inr (X, r)"
  have st: "LA1 ts = Some NAME \<or> LA1 ts = Some NAME_SUBSTRING \<or> LA1 ts = Some LPAREN"
    using traversalAllowedExpr_start [OF ok] .
  then obtain t ts' where ts: "ts = t # ts'" by (cases ts) auto
  show "((LA1 ts = Some NAME \<or> LA1 ts = Some NAME_SUBSTRING)
         \<and> (\<exists>a. X = AttributeExpressionContext a \<and> attributeExpr ts = Inr (a, r)))
      \<or> (LA1 ts = Some LPAREN
         \<and> (\<exists>l e rp. X = ParenthesizedExpressionContext l e rp \<and> kind l = LPAREN
               \<and> kind rp = RPAREN \<and> ts = l # tokens_of_expr e @ rp # r
               \<and> expr 0 (tl ts) = Inr (e, rp # r)))"
  proof (cases "kind t = LPAREN")
    case False
    with st ts have k: "kind t = NAME \<or> kind t = NAME_SUBSTRING" by simp
    from ok have "(case attributeExpr (t # ts') of Inl e \<Rightarrow> Inl e
      | Inr (a, r) \<Rightarrow> Inr (AttributeExpressionContext a, r)) = Inr (X, r)"
      unfolding ts traversalAllowedExpr_attribute [OF k] .
    then have "\<exists>a. X = AttributeExpressionContext a \<and> attributeExpr ts = Inr (a, r)"
      unfolding ts by (cases "attributeExpr (t # ts')") auto
    then show ?thesis using k ts by simp
  next
    case True
    from ok have e: "(case expr 0 ts' of Inl e \<Rightarrow> Inl e | Inr (x, r2) \<Rightarrow>
        (case match RPAREN r2 of Inl e \<Rightarrow> Inl e | Inr (rp, r3) \<Rightarrow>
           Inr (ParenthesizedExpressionContext t x rp, r3))) = Inr (X, r)"
      unfolding ts traversalAllowedExpr_paren [OF True] .
    then obtain x r2 where x: "expr 0 ts' = Inr (x, r2)"
      by (cases "expr 0 ts'") auto
    with e obtain rp where rp: "match RPAREN r2 = Inr (rp, r)"
      and X: "X = ParenthesizedExpressionContext t x rp"
      by (cases "match RPAREN r2") auto
    from rp have r2: "r2 = rp # r" and krp: "kind rp = RPAREN"
      using match_tokens [where k=RPAREN and ts=r2] by simp_all
    have "ts' = tokens_of_expr x @ rp # r" using expr_tokens [OF x] r2 by simp
    then show ?thesis using True ts X x r2 krp by simp
  qed
next
  assume "LA1 ts \<noteq> Some NAME \<and> LA1 ts \<noteq> Some NAME_SUBSTRING \<and> LA1 ts \<noteq> Some LPAREN"
  then show "traversalAllowedExpr ts = Inl (RecognitionException (LT1 ts))"
    by (simp add: traversalAllowedExpr_other)
next
  assume "u \<noteq> [] \<and> list_all (\<lambda>t. kind t = PLUS) u
        \<and> LA1 ts \<noteq> Some NAME \<and> LA1 ts \<noteq> Some NAME_SUBSTRING \<and> LA1 ts \<noteq> Some LPAREN
        \<and> LA1 ts \<noteq> Some PLUS"
  then show "start (u @ ts) = Inl (RecognitionException (LT1 ts))"
    by (simp add: start_PLUS_other)
next
  assume "kind s = STAR
        \<and> LA1 ts \<noteq> Some NAME \<and> LA1 ts \<noteq> Some NAME_SUBSTRING \<and> LA1 ts \<noteq> Some LPAREN
        \<and> LA1 ts \<noteq> Some AND \<and> LA1 ts \<noteq> Some OR \<and> ts \<noteq> []"
  then show "start (s # ts) = Inl (RecognitionException (LT1 ts))"
    by (simp add: start_STAR_other)
qed

theorem traversal_attaches_only_to_traversalAllowedExpr_witness:
  "traversalAllowedExpr [tok UNQUOTED_STRING ''foo'' 1, tok PLUS ''+'' 4]
     = Inl (RecognitionException (Some (tok UNQUOTED_STRING ''foo'' 1)))
   \<and> start ([tok PLUS ''+'' 0] @ tok NOT ''not'' 1 # name_tokens ''a'' 5)
     = Inl (RecognitionException (Some (tok NOT ''not'' 1)))
   \<and> start [tok STAR ''*'' 0, tok STAR ''*'' 1]
     = Inl (RecognitionException (Some (tok STAR ''*'' 1)))
   \<and> traversalAllowedExpr (name_tokens ''a'' 0) = Inr (name_context ''a'' 0, [])"
proof -
  have h: "traversalAllowedExpr (name_tokens ''a'' 0) = Inr (name_context ''a'' 0, [])"
    using tae_operand_name [of "''a''" 0, unfolded tae_operand_def, THEN spec, of "[]"]
    by simp
  show ?thesis
    using h
      traversal_attaches_only_to_traversalAllowedExpr
        [of "[tok UNQUOTED_STRING ''foo'' 1, tok PLUS ''+'' 4]"]
      traversal_attaches_only_to_traversalAllowedExpr
        [of "tok NOT ''not'' 1 # name_tokens ''a'' 5" _ _ "[tok PLUS ''+'' 0]"]
      traversal_attaches_only_to_traversalAllowedExpr
        [of "[tok STAR ''*'' 1]" _ _ _ "tok STAR ''*'' 0"]
      traversal_attaches_only_to_traversalAllowedExpr
        [of "name_tokens ''a'' 0" "name_context ''a'' 0" "[]"]
    by (simp add: name_tokens_def)
qed

text \<open>
  C6. Whenever at least one of the four traversal shapes matches the front of the
  input, the shape the parser commits to is the first one that matches in the order
  up-and-down, up-only, down-only, untraversed; and every traversal shape the parser
  returns is that first match. (In the generated switch the untraversed alternative
  is number 1 and the others are 2, 3 and 4; the prediction reads past the
  \<^verbatim>\<open>traversalAllowedExpr\<close>, so a trailing qualifier is never left behind.)
\<close>

theorem shape_follows_fixed_ordering:
  "shape_by_spec_ordering ts = Some res \<longleftrightarrow>
     expr_primary ts = Inr res \<and> is_traversal_shape (fst res)"
proof (cases "traversal ts")
  case (Inl e)
  note tr = Inl
  have la: "LA1 ts \<noteq> Some STAR" "LA1 ts \<noteq> Some PLUS" using traversal_Inl_LA1 [OF Inl] by simp_all
  have ud: "up_and_down_shape ts = None" "up_shape ts = None"
    using Inl by (simp_all add: up_and_down_shape_def up_shape_def)
  show ?thesis
  proof (cases "traversalAllowedExpr ts")
    case (Inl e2)
    then have none: "shape_by_spec_ordering ts = None"
      using ud by (simp add: shape_by_spec_ordering_def down_shape_def untraversed_shape_def)
    have "\<not> (expr_primary ts = Inr res \<and> is_traversal_shape (fst res))"
    proof (cases "LA1 ts = Some NOT")
      case True
      then have "adaptivePredict_0 ts = Inr 5" by (simp add: adaptivePredict_0.simps [of ts])
      then have "expr_primary ts =
          (case match NOT ts of Inl e \<Rightarrow> Inl e | Inr (n, r1) \<Rightarrow>
          (case expr 4 r1 of Inl e \<Rightarrow> Inl e | Inr (x, r2) \<Rightarrow>
             Inr (NotExpressionContext n x, r2)))"
        by (simp add: expr_primary.simps [of ts])
      then show ?thesis by (auto split: sum.splits)
    next
      case False
      then have "\<exists>e. adaptivePredict_0 ts = Inl e"
        using Inl la
        by (auto simp: adaptivePredict_0.simps [of ts] split: option.splits TokenType.splits)
      then show ?thesis by (auto simp: expr_primary.simps [of ts])
    qed
    with none show ?thesis by simp
  next
    case (Inr b)
    obtain x r where b: "b = (x, r)" by (cases b)
    have st: "LA1 ts = Some NAME \<or> LA1 ts = Some NAME_SUBSTRING \<or> LA1 ts = Some LPAREN"
      using traversalAllowedExpr_start Inr b by blast
    have ap: "adaptivePredict_0 ts =
        (if LA1 r = Some STAR \<or> LA1 r = Some PLUS then Inr 4 else Inr 1)"
      using st Inr b by (auto simp: adaptivePredict_0.simps [of ts])
    show ?thesis
    proof (cases "traversal r")
      case (Inl e3)
      then have "LA1 r \<noteq> Some STAR \<and> LA1 r \<noteq> Some PLUS" by (rule traversal_Inl_LA1)
      then show ?thesis
        using ud Inr b Inl ap
        by (auto simp: shape_by_spec_ordering_def down_shape_def untraversed_shape_def
            expr_primary.simps [of ts])
    next
      case (Inr b2)
      then have "LA1 r = Some STAR \<or> LA1 r = Some PLUS" by (rule traversal_Inr_LA1)
      then show ?thesis
        using ud \<open>traversalAllowedExpr ts = Inr b\<close> b Inr ap
        by (auto simp: shape_by_spec_ordering_def down_shape_def untraversed_shape_def
            expr_primary.simps [of ts] split: prod.splits)
    qed
  qed
next
  case (Inr b)
  obtain u r1 where b: "b = (u, r1)" by (cases b)
  have la: "LA1 ts = Some STAR \<or> LA1 ts = Some PLUS" using traversal_Inr_LA1 [OF Inr] .
  obtain e where tae: "traversalAllowedExpr ts = Inl e"
    using traversalAllowedExpr_Inl_of_traversal [OF Inr] by blast
  have du: "down_shape ts = None" "untraversed_shape ts = None"
    using tae by (simp_all add: down_shape_def untraversed_shape_def)
  show ?thesis
  proof (cases "traversalAllowedExpr r1")
    case (Inl e2)
    then have none: "shape_by_spec_ordering ts = None"
      using du Inr b by (simp add: shape_by_spec_ordering_def up_and_down_shape_def up_shape_def)
    have "adaptivePredict_0 ts = Inl e2 \<or> adaptivePredict_0 ts = Inr 6"
      using Inl la Inr b by (auto simp: adaptivePredict_0.simps [of ts] split: if_splits)
    then have "\<not> (expr_primary ts = Inr res \<and> is_traversal_shape (fst res))"
    proof
      assume "adaptivePredict_0 ts = Inl e2"
      then show ?thesis by (simp add: expr_primary.simps [of ts])
    next
      assume "adaptivePredict_0 ts = Inr 6"
      then have "expr_primary ts =
          (case match STAR ts of Inl e \<Rightarrow> Inl e | Inr (s, r) \<Rightarrow>
             Inr (AllExpressionContext s, r))"
        by (simp add: expr_primary.simps [of ts])
      then show ?thesis by (auto split: sum.splits)
    qed
    with none show ?thesis by simp
  next
    case (Inr b2)
    obtain x r2 where b2: "b2 = (x, r2)" by (cases b2)
    have st: "LA1 r1 = Some NAME \<or> LA1 r1 = Some NAME_SUBSTRING \<or> LA1 r1 = Some LPAREN"
      using traversalAllowedExpr_start Inr b2 by blast
    have ap: "adaptivePredict_0 ts =
        (if LA1 r2 = Some STAR \<or> LA1 r2 = Some PLUS then Inr 2 else Inr 3)"
      using la st Inr b2 \<open>traversal ts = Inr b\<close> b
      by (auto simp: adaptivePredict_0.simps [of ts])
    show ?thesis
    proof (cases "traversal r2")
      case (Inl e3)
      then have "LA1 r2 \<noteq> Some STAR \<and> LA1 r2 \<noteq> Some PLUS" by (rule traversal_Inl_LA1)
      then show ?thesis
        using du \<open>traversal ts = Inr b\<close> b Inr b2 Inl ap
        by (auto simp: shape_by_spec_ordering_def up_and_down_shape_def up_shape_def
            expr_primary.simps [of ts])
    next
      case (Inr b3)
      then have "LA1 r2 = Some STAR \<or> LA1 r2 = Some PLUS" by (rule traversal_Inr_LA1)
      then show ?thesis
        using du \<open>traversal ts = Inr b\<close> b \<open>traversalAllowedExpr r1 = Inr b2\<close> b2 Inr ap
        by (auto simp: shape_by_spec_ordering_def up_and_down_shape_def up_shape_def
            expr_primary.simps [of ts] split: prod.splits)
    qed
  qed
qed

theorem shape_follows_fixed_ordering_witness:
  "expr_primary ([tok PLUS ''+'' 0] @ name_tokens ''a'' 1 @ [tok PLUS ''+'' 7])
     = Inr (UpAndDownTraversalExpressionContext (TraversalContext [tok PLUS ''+'' 0])
              (name_context ''a'' 1) (TraversalContext [tok PLUS ''+'' 7]), [])
   \<and> shape_by_spec_ordering ([tok PLUS ''+'' 0] @ name_tokens ''a'' 1 @ [tok PLUS ''+'' 7])
     = Some (UpAndDownTraversalExpressionContext (TraversalContext [tok PLUS ''+'' 0])
              (name_context ''a'' 1) (TraversalContext [tok PLUS ''+'' 7]), [])
   \<and> shape_by_spec_ordering (name_tokens ''a'' 0 @ [tok PLUS ''+'' 6])
     = Some (DownTraversalExpressionContext (name_context ''a'' 0)
              (TraversalContext [tok PLUS ''+'' 6]), [])"
proof -
  have h1: "expr_primary ([tok PLUS ''+'' 0] @ name_tokens ''a'' 1 @ [tok PLUS ''+'' 7])
     = Inr (UpAndDownTraversalExpressionContext (TraversalContext [tok PLUS ''+'' 0])
              (name_context ''a'' 1) (TraversalContext [tok PLUS ''+'' 7]), [])"
    by (simp add: parser_eval name_tokens_def name_context_def)
  have h2: "expr_primary (name_tokens ''a'' 0 @ [tok PLUS ''+'' 6])
     = Inr (DownTraversalExpressionContext (name_context ''a'' 0)
              (TraversalContext [tok PLUS ''+'' 6]), [])"
    by (simp add: parser_eval name_tokens_def name_context_def)
  show ?thesis
    using h1 h2
      shape_follows_fixed_ordering
        [of "[tok PLUS ''+'' 0] @ name_tokens ''a'' 1 @ [tok PLUS ''+'' 7]"
          "(UpAndDownTraversalExpressionContext (TraversalContext [tok PLUS ''+'' 0])
              (name_context ''a'' 1) (TraversalContext [tok PLUS ''+'' 7]), [])"]
      shape_follows_fixed_ordering
        [of "name_tokens ''a'' 0 @ [tok PLUS ''+'' 6]"
          "(DownTraversalExpressionContext (name_context ''a'' 0)
              (TraversalContext [tok PLUS ''+'' 6]), [])"]
    by simp
qed

text \<open>
  C7. Chains of one operator associate to the left: for all operands \<^verbatim>\<open>a\<close>, \<^verbatim>\<open>b\<close> and
  \<^verbatim>\<open>c\<close>, the input \<^verbatim>\<open>a and b and c\<close> parses as And(And(a, b), c) and the input
  \<^verbatim>\<open>a or b or c\<close> parses as Or(Or(a, b), c).
\<close>

theorem same_operator_chains_left_associative:
  assumes "operand a A" "operand b B" "operand c C"
  shows "(kind o1 = AND \<and> kind o2 = AND \<longrightarrow>
            start (a @ o1 # b @ o2 # c) =
              Inr (StartContext (AndExpressionContext (AndExpressionContext A o1 B) o2 C)))
       \<and> (kind o1 = OR \<and> kind o2 = OR \<longrightarrow>
            start (a @ o1 # b @ o2 # c) =
              Inr (StartContext (OrExpressionContext (OrExpressionContext A o1 B) o2 C)))"
proof (intro conjI impI)
  assume k: "kind o1 = AND \<and> kind o2 = AND"
  have b: "expr 4 (b @ o2 # c) = Inr (B, o2 # c)"
    using k by (simp add: expr_operand [OF assms(2)] expr_loop_exit)
  have c: "expr 4 c = Inr (C, [])"
    by (simp add: expr_operand_end [OF assms(3)] expr_loop_exit)
  have "expr 0 (a @ o1 # b @ o2 # c) =
          Inr (AndExpressionContext (AndExpressionContext A o1 B) o2 C, [])"
    using k by (simp add: expr_operand [OF assms(1)] expr_loop_and b c expr_loop_exit)
  then show "start (a @ o1 # b @ o2 # c) =
      Inr (StartContext (AndExpressionContext (AndExpressionContext A o1 B) o2 C))"
    by (simp add: start_def matchEOF_def)
next
  assume k: "kind o1 = OR \<and> kind o2 = OR"
  have b: "expr 3 (b @ o2 # c) = Inr (B, o2 # c)"
    using k by (simp add: expr_operand [OF assms(2)] expr_loop_exit)
  have c: "expr 3 c = Inr (C, [])"
    by (simp add: expr_operand_end [OF assms(3)] expr_loop_exit)
  have "expr 0 (a @ o1 # b @ o2 # c) =
          Inr (OrExpressionContext (OrExpressionContext A o1 B) o2 C, [])"
    using k by (simp add: expr_operand [OF assms(1)] expr_loop_or b c expr_loop_exit)
  then show "start (a @ o1 # b @ o2 # c) =
      Inr (StartContext (OrExpressionContext (OrExpressionContext A o1 B) o2 C))"
    by (simp add: start_def matchEOF_def)
qed

theorem same_operator_chains_left_associative_witness:
  "operand (name_tokens ''a'' 0) (TraversalAllowedExpressionContext (name_context ''a'' 0))
   \<and> operand (name_tokens ''b'' 11) (TraversalAllowedExpressionContext (name_context ''b'' 11))
   \<and> operand (name_tokens ''c'' 22) (TraversalAllowedExpressionContext (name_context ''c'' 22))
   \<and> start (name_tokens ''a'' 0 @ tok AND ''and'' 7 # name_tokens ''b'' 11
              @ tok AND ''and'' 18 # name_tokens ''c'' 22)
       = Inr (StartContext
           (AndExpressionContext
              (AndExpressionContext (TraversalAllowedExpressionContext (name_context ''a'' 0))
                 (tok AND ''and'' 7)
                 (TraversalAllowedExpressionContext (name_context ''b'' 11)))
              (tok AND ''and'' 18)
              (TraversalAllowedExpressionContext (name_context ''c'' 22))))"
  using same_operator_chains_left_associative
    [OF operand_name [of "''a''" 0] operand_name [of "''b''" 11] operand_name [of "''c''" 22],
      of "tok AND ''and'' 7" "tok AND ''and'' 18"]
    operand_name
  by simp

text \<open>
  C8, as stated. The claim takes the input \<^verbatim>\<open>foo* or bar\<close>, the tokens \<^verbatim>\<open>foo\<close> at offset
  0, \<^verbatim>\<open>*\<close> at offset 3, \<^verbatim>\<open>or\<close> at offset 5 and \<^verbatim>\<open>bar\<close> at offset 8, and says that the
  syntax error is reported at the position of \<^verbatim>\<open>*\<close>. The parse does fail, but no
  error of this parse has the position 3: a bare name starts no alternative of
  \<^verbatim>\<open>expr\<close>, so the error is reported at the first token, before \<^verbatim>\<open>*\<close> is looked at.
\<close>

theorem foo_star_or_bar_counterexample:
  "\<not> (\<exists>e t. start [tok UNQUOTED_STRING ''foo'' 0, tok STAR ''*'' 3, tok OR ''or'' 5,
               tok UNQUOTED_STRING ''bar'' 8] = Inl e
            \<and> offendingToken e = Some t \<and> position t = 3)"
  by (simp add: parser_eval)

text \<open>
  C8, amended. For the input \<^verbatim>\<open>foo* or bar\<close> parsing fails with a syntax error, and the
  reported error position is the position of the bare name \<^verbatim>\<open>foo\<close>, the first token
  (offset 0).
\<close>

theorem foo_star_or_bar_fails_at_foo:
  "start [tok UNQUOTED_STRING ''foo'' 0, tok STAR ''*'' 3, tok OR ''or'' 5,
          tok UNQUOTED_STRING ''bar'' 8]
     = Inl (RecognitionException (Some (tok UNQUOTED_STRING ''foo'' 0)))
   \<and> position (tok UNQUOTED_STRING ''foo'' 0) = 0"
  by (simp add: parser_eval)

text \<open>
  C9. \<^verbatim>\<open>attributeExpr\<close> accepts exactly the inputs that start with a \<^verbatim>\<open>NAME\<close> or a
  \<^verbatim>\<open>NAME_SUBSTRING\<close> token, then a \<^verbatim>\<open>COLON\<close>, then one token that is a
  \<^verbatim>\<open>QUOTED_STRING\<close> or an \<^verbatim>\<open>UNQUOTED_STRING\<close>; it consumes these three tokens and
  builds the \<^verbatim>\<open>NameExprContext\<close> or the \<^verbatim>\<open>NameSubstringExprContext\<close> from them. Any
  other token in the keyword position is a syntax error at that token, and any other
  token in the value position is a syntax error at that token.
\<close>

theorem attributeExpr_closed_vocabulary:
  "(attributeExpr ts = Inr (ctx, r) \<longleftrightarrow>
      (\<exists>n c v. ts = n # c # v # r
         \<and> (kind n = NAME \<and> ctx = NameExprContext n c (ValueContext v)
            \<or> kind n = NAME_SUBSTRING \<and> ctx = NameSubstringExprContext n c (ValueContext v))
         \<and> kind c = COLON
         \<and> (kind v = QUOTED_STRING \<or> kind v = UNQUOTED_STRING)))
   \<and> (LA1 ts \<noteq> Some NAME \<and> LA1 ts \<noteq> Some NAME_SUBSTRING
        \<longrightarrow> attributeExpr ts = Inl (RecognitionException (LT1 ts)))
   \<and> ((LA1 ts = Some NAME \<or> LA1 ts = Some NAME_SUBSTRING) \<and> LA1 (tl ts) = Some COLON
        \<and> LA1 (tl (tl ts)) \<noteq> Some QUOTED_STRING \<and> LA1 (tl (tl ts)) \<noteq> Some UNQUOTED_STRING
        \<longrightarrow> attributeExpr ts = Inl (RecognitionException (LT1 (tl (tl ts)))))"
proof -
  consider "ts = []" | n where "ts = [n]" | n c where "ts = [n, c]"
    | n c v r' where "ts = n # c # v # r'"
    by (cases ts rule: list.exhaust [case_product list.exhaust [case_product list.exhaust]])
       (metis list.exhaust)+
  then show ?thesis
  proof cases
    case 1
    then show ?thesis by (simp add: attributeExpr_short LA1_def LT1_def)
  next
    case 2
    then show ?thesis by (simp add: attributeExpr_short LA1_def LT1_def)
  next
    case 3
    then show ?thesis by (simp add: attributeExpr_short LA1_def LT1_def)
  next
    case 4
    then show ?thesis by (auto simp: attributeExpr_Cons3 LA1_def LT1_def)
  qed
qed

theorem attributeExpr_closed_vocabulary_witness:
  "attributeExpr [tok UNQUOTED_STRING ''key'' 0, tok COLON '':'' 3, tok UNQUOTED_STRING ''foo'' 4]
     = Inl (RecognitionException (Some (tok UNQUOTED_STRING ''key'' 0)))
   \<and> attributeExpr [tok NAME ''name'' 0, tok COLON '':'' 4, tok STAR ''*'' 5]
     = Inl (RecognitionException (Some (tok STAR ''*'' 5)))
   \<and> attributeExpr [tok NAME_SUBSTRING ''name_substring'' 0, tok COLON '':'' 14,
        tok QUOTED_STRING ''\"a b\"'' 15]
     = Inr (NameSubstringExprContext (tok NAME_SUBSTRING ''name_substring'' 0) (tok COLON '':'' 14)
         (ValueContext (tok QUOTED_STRING ''\"a b\"'' 15)), [])"
  using
    attributeExpr_closed_vocabulary [of
      "[tok UNQUOTED_STRING ''key'' 0, tok COLON '':'' 3, tok UNQUOTED_STRING ''foo'' 4]"]
    attributeExpr_closed_vocabulary [of
      "[tok NAME ''name'' 0, tok COLON '':'' 4, tok STAR ''*'' 5]"]
    attributeExpr_closed_vocabulary [of
      "[tok NAME_SUBSTRING ''name_substring'' 0, tok COLON '':'' 14,
        tok QUOTED_STRING ''\"a b\"'' 15]"
      "NameSubstringExprContext (tok NAME_SUBSTRING ''name_substring'' 0) (tok COLON '':'' 14)
         (ValueContext (tok QUOTED_STRING ''\"a b\"'' 15))" "[]"]
  by simp

text \<open>
  C10. In an up-and-down traversal the two qualifiers are read independently of each
  other: for every leading qualifier \<^verbatim>\<open>u\<close> and every trailing qualifier \<^verbatim>\<open>d\<close>, each of
  them one \<^verbatim>\<open>STAR\<close> or a run of \<^verbatim>\<open>PLUS\<close> tokens of any length, and every
  \<^verbatim>\<open>traversalAllowedExpr\<close> \<^verbatim>\<open>x\<close>, the input \<^verbatim>\<open>u x d\<close> is accepted and gives one
  \<^verbatim>\<open>UpAndDownTraversalExpressionContext\<close> whose first traversal context holds exactly
  the tokens of \<^verbatim>\<open>u\<close> and whose second holds exactly those of \<^verbatim>\<open>d\<close>; the number of
  \<^verbatim>\<open>PLUS()\<close> children and the presence of \<^verbatim>\<open>STAR()\<close> are those of each qualifier on
  its own.
\<close>

theorem up_and_down_qualifiers_independent:
  assumes "traversal_run u" "tae_operand x X" "traversal_run d"
  shows "start (u @ x @ d) =
           Inr (StartContext
             (UpAndDownTraversalExpressionContext (TraversalContext u) X (TraversalContext d)))
       \<and> children (TraversalContext u) = u \<and> children (TraversalContext d) = d
       \<and> length (TraversalContext_PLUS (TraversalContext u)) =
           (if kind (hd u) = PLUS then length u else 0)
       \<and> length (TraversalContext_PLUS (TraversalContext d)) =
           (if kind (hd d) = PLUS then length d else 0)
       \<and> (TraversalContext_STAR (TraversalContext u) \<noteq> None \<longleftrightarrow> kind (hd u) = STAR)
       \<and> (TraversalContext_STAR (TraversalContext d) \<noteq> None \<longleftrightarrow> kind (hd d) = STAR)"
proof -
  have "expr_primary (u @ x @ d @ []) =
     Inr (UpAndDownTraversalExpressionContext (TraversalContext u) X (TraversalContext d), [])"
    by (rule expr_primary_up_and_down [OF assms]) simp
  then have "start (u @ x @ d) =
           Inr (StartContext
             (UpAndDownTraversalExpressionContext (TraversalContext u) X (TraversalContext d)))"
    by (simp add: start_def expr.simps [of 0 "u @ x @ d"] expr_loop_exit matchEOF_def)
  moreover have "kind (hd u) = STAR \<or> kind (hd u) = PLUS" "kind (hd d) = STAR \<or> kind (hd d) = PLUS"
    using assms(1,3) by (auto simp: traversal_run_def neq_Nil_conv)
  ultimately show ?thesis
    using traversal_run_accessors [OF assms(1)] traversal_run_accessors [OF assms(3)]
    by auto
qed

theorem up_and_down_qualifiers_independent_witness:
  "traversal_run [tok PLUS ''+'' 0, tok PLUS ''+'' 1]
   \<and> tae_operand (name_tokens ''foo'' 2) (name_context ''foo'' 2)
   \<and> traversal_run [tok STAR ''*'' 10]
   \<and> start ([tok PLUS ''+'' 0, tok PLUS ''+'' 1] @ name_tokens ''foo'' 2 @ [tok STAR ''*'' 10])
       = Inr (StartContext
           (UpAndDownTraversalExpressionContext
              (TraversalContext [tok PLUS ''+'' 0, tok PLUS ''+'' 1])
              (name_context ''foo'' 2)
              (TraversalContext [tok STAR ''*'' 10])))
   \<and> length (TraversalContext_PLUS (TraversalContext [tok PLUS ''+'' 0, tok PLUS ''+'' 1])) = 2
   \<and> TraversalContext_STAR (TraversalContext [tok STAR ''*'' 10]) \<noteq> None"
  using up_and_down_qualifiers_independent
    [OF traversal_run_simps(3) [of "''+''" 0 "''+''" 1] tae_operand_name [of "''foo''" 2]
      traversal_run_simps(1) [of "''*''" 10]]
    tae_operand_name
  by simp

end
